theory Spec2Isabelle
  imports Main
begin

section \<open>Tic-tac-toe: board, move selectors and game controller\<close>

text \<open>
  The development embeds the logic core of the browser game: the \<open>Gameboard\<close> module, the
  two variants of the \<open>AI\<close> module (exhaustive minimax in \<^verbatim>\<open>script.js\<close>, a priority
  chain of heuristics in the second variant of the file) and the \<open>GameController\<close>, which is
  the same in both variants.

  A cell is a JavaScript string; the empty string marks a free cell. A board is the array of
  cells. Reading an array beyond its length yields \<^verbatim>\<open>undefined\<close>, which is different from
  every string: \<open>cell\<close> returns \<open>None\<close> there.
\<close>

subsection \<open>Data\<close>

type_synonym board = "string list"

definition cell :: "board \<Rightarrow> nat \<Rightarrow> string option" where
  "cell b i = (if i < length b then Some (b ! i) else None)"

text \<open>JavaScript numbers as far as the search uses them: integers and the two infinities.\<close>

datatype jsnum = NegInf | Fin int | PosInf

fun js_gt :: "jsnum \<Rightarrow> jsnum \<Rightarrow> bool" where
  "js_gt NegInf _ = False"
| "js_gt (Fin x) NegInf = True"
| "js_gt (Fin x) (Fin y) = (y < x)"
| "js_gt (Fin x) PosInf = False"
| "js_gt PosInf PosInf = False"
| "js_gt PosInf _ = True"

definition js_max :: "jsnum \<Rightarrow> jsnum \<Rightarrow> jsnum" where
  "js_max a b = (if js_gt b a then b else a)"

definition js_min :: "jsnum \<Rightarrow> jsnum \<Rightarrow> jsnum" where
  "js_min a b = (if js_gt a b then b else a)"

subsection \<open>The Gameboard module\<close>

definition emptyBoard :: board where
  "emptyBoard = ['''', '''', '''', '''', '''', '''', '''', '''', '''']"

text \<open>
  \<open>setCell\<close> returns the success flag and the board after the call. The index is any
  integer the caller passes.
\<close>

definition setCell :: "int \<Rightarrow> string \<Rightarrow> board \<Rightarrow> bool \<times> board" where
  "setCell index marker b =
     (if 0 \<le> index \<and> index < 9 \<and> cell b (nat index) = Some ''''
      then (True, b[nat index := marker])
      else (False, b))"

text \<open>\<open>getCell\<close> returns \<^verbatim>\<open>null\<close> out of range; \<open>None\<close> stands for it.\<close>

definition getCell :: "int \<Rightarrow> board \<Rightarrow> string option" where
  "getCell index b = (if 0 \<le> index \<and> index < 9 then cell b (nat index) else None)"

text \<open>
  An assignment \<^verbatim>\<open>board[i] = v\<close>. Within the array it replaces the cell; at the index just
  past the end it appends, which is how JavaScript lengthens an array. The loop of \<open>reset\<close>
  counts up from 0, so it never writes further out than that.
\<close>

definition assign :: "board \<Rightarrow> nat \<Rightarrow> string \<Rightarrow> board" where
  "assign b i v = (if i < length b then b[i := v] else b @ [v])"

definition reset :: "board \<Rightarrow> board" where
  "reset b = fold (\<lambda>i acc. assign acc i '''') [0..<9] b"

definition isFull :: "board \<Rightarrow> bool" where
  "isFull b = list_all (\<lambda>c. c \<noteq> '''') b"

subsection \<open>The AI module: minimax\<close>

definition winConditions :: "nat list list" where
  "winConditions =
     [[0, 1, 2], [3, 4, 5], [6, 7, 8], [0, 3, 6], [1, 4, 7], [2, 5, 8], [0, 4, 8], [2, 4, 6]]"

definition checkWinner :: "board \<Rightarrow> string \<Rightarrow> bool" where
  "checkWinner b marker =
     list_ex (\<lambda>condition. list_all (\<lambda>index. cell b index = Some marker) condition) winConditions"

definition isBoardFull :: "board \<Rightarrow> bool" where
  "isBoardFull b = list_all (\<lambda>c. c \<noteq> '''') b"

definition evaluate :: "board \<Rightarrow> string \<Rightarrow> string \<Rightarrow> int" where
  "evaluate b computerMarker playerMarker =
     (if checkWinner b computerMarker then 10
      else if checkWinner b playerMarker then - 10
      else 0)"

text \<open>
  One iteration of the two \<^verbatim>\<open>for\<close> loops of \<open>minimax\<close>: on a free cell the marker is
  written, the position is scored by the recursive call \<open>rec\<close>, the write is undone and the
  best score is updated with \<open>upd\<close> (\<^verbatim>\<open>Math.max\<close> or \<^verbatim>\<open>Math.min\<close>). The source writes into
  the array and restores the cell afterwards, so every call returns with the array as it
  found it; the model passes the updated copy instead. \<open>None\<close> is a recursive call that did
  not return within its fuel.
\<close>

definition scoreStep ::
  "board \<Rightarrow> string \<Rightarrow> (board \<Rightarrow> jsnum option) \<Rightarrow> (jsnum \<Rightarrow> jsnum \<Rightarrow> jsnum) \<Rightarrow>
   nat \<Rightarrow> jsnum option \<Rightarrow> jsnum option" where
  "scoreStep b marker rec upd i best =
     (if cell b i = Some '''' then
        (case best of
           None \<Rightarrow> None
         | Some bestScore \<Rightarrow>
             (case rec (b[i := marker]) of
                None \<Rightarrow> None
              | Some score \<Rightarrow> Some (upd score bestScore)))
      else best)"

text \<open>
  The recursion of \<open>minimax\<close> ends because every call fills a free cell, which needs the
  markers to differ from the empty string. The model counts the nesting of calls down with a
  fuel argument and returns \<open>None\<close> when it is used up.
\<close>

fun minimax :: "nat \<Rightarrow> board \<Rightarrow> int \<Rightarrow> bool \<Rightarrow> string \<Rightarrow> string \<Rightarrow> jsnum option" where
  "minimax 0 b depth isMaximizing computerMarker playerMarker = None"
| "minimax (Suc fuel) b depth isMaximizing computerMarker playerMarker =
     (let score = evaluate b computerMarker playerMarker in
      if score = 10 then Some (Fin (score - depth))
      else if score = - 10 then Some (Fin (score + depth))
      else if isBoardFull b then Some (Fin 0)
      else if isMaximizing then
        fold (scoreStep b computerMarker
                (\<lambda>b'. minimax fuel b' (depth + 1) False computerMarker playerMarker) js_max)
             [0..<9] (Some NegInf)
      else
        fold (scoreStep b playerMarker
                (\<lambda>b'. minimax fuel b' (depth + 1) True computerMarker playerMarker) js_min)
             [0..<9] (Some PosInf))"

text \<open>
  One iteration of the loop of \<open>getBestMove\<close>; the state is the pair of \<open>bestScore\<close> and
  \<open>bestMove\<close> (\<open>None\<close> is \<^verbatim>\<open>null\<close>).
\<close>

definition moveStep ::
  "board \<Rightarrow> string \<Rightarrow> (board \<Rightarrow> jsnum option) \<Rightarrow>
   nat \<Rightarrow> (jsnum \<times> nat option) option \<Rightarrow> (jsnum \<times> nat option) option" where
  "moveStep b marker rec i st =
     (if cell b i = Some '''' then
        (case st of
           None \<Rightarrow> None
         | Some (bestScore, bestMove) \<Rightarrow>
             (case rec (b[i := marker]) of
                None \<Rightarrow> None
              | Some score \<Rightarrow>
                  if js_gt score bestScore then Some (score, Some i)
                  else Some (bestScore, bestMove)))
      else st)"

text \<open>
  \<open>getBestMove\<close> works on a copy of the board. The outer \<open>option\<close> is the fuel, the inner
  one the move or \<^verbatim>\<open>null\<close>.
\<close>

definition getBestMove :: "nat \<Rightarrow> board \<Rightarrow> string \<Rightarrow> string \<Rightarrow> nat option option" where
  "getBestMove fuel b computerMarker playerMarker =
     map_option snd
       (fold (moveStep b computerMarker
                (\<lambda>b'. minimax fuel b' 0 False computerMarker playerMarker))
             [0..<9] (Some (NegInf, None)))"

subsection \<open>The AI module: heuristic variant\<close>

text \<open>
  \<open>findWinningMove\<close> has its own table of lines and destructures each line into three
  indices. The loop returns from inside; the model recurses over the rest of the table
  where the source goes on to the next line.
\<close>

definition winTriples :: "(nat \<times> nat \<times> nat) list" where
  "winTriples =
     [(0, 1, 2), (3, 4, 5), (6, 7, 8), (0, 3, 6), (1, 4, 7), (2, 5, 8), (0, 4, 8), (2, 4, 6)]"

fun findWinningMoveIn :: "(nat \<times> nat \<times> nat) list \<Rightarrow> board \<Rightarrow> string \<Rightarrow> nat option" where
  "findWinningMoveIn [] b marker = None"
| "findWinningMoveIn ((a, b', c) # rest) b marker =
     (let values = [cell b a, cell b b', cell b c];
          markerCount = length (filter (\<lambda>v. v = Some marker) values);
          emptyCount = length (filter (\<lambda>v. v = Some '''') values)
      in if markerCount = 2 \<and> emptyCount = 1 then
           (if cell b a = Some '''' then Some a
            else if cell b b' = Some '''' then Some b'
            else if cell b c = Some '''' then Some c
            else findWinningMoveIn rest b marker)
         else findWinningMoveIn rest b marker)"

definition findWinningMove :: "board \<Rightarrow> string \<Rightarrow> nat option" where
  "findWinningMove b marker = findWinningMoveIn winTriples b marker"

text \<open>
  Reading an array at an index: \<open>None\<close> is \<^verbatim>\<open>undefined\<close>.
\<close>

definition at_index :: "nat list \<Rightarrow> nat \<Rightarrow> nat option" where
  "at_index xs k = (if k < length xs then Some (xs ! k) else None)"

text \<open>
  The heuristic selector draws from \<^verbatim>\<open>Math.random\<close>. The parameter \<open>rnd\<close> is the random
  source: \<open>rnd n\<close> is the value of \<^verbatim>\<open>Math.floor(Math.random() * n)\<close>, which lies below \<open>n\<close>
  because \<^verbatim>\<open>Math.random()\<close> lies in the half-open interval from 0 to 1. A draw at or
  beyond the bound would read \<^verbatim>\<open>undefined\<close> from the array, which the result type does not
  tell from \<^verbatim>\<open>null\<close>; the properties below are stated for a source that draws below its
  bound. Both variants of the file call the selector \<open>getBestMove\<close>; the heuristic one is
  \<open>getBestMoveHeuristic\<close> here.
\<close>

definition getBestMoveHeuristic :: "(nat \<Rightarrow> nat) \<Rightarrow> board \<Rightarrow> string \<Rightarrow> string \<Rightarrow> nat option" where
  "getBestMoveHeuristic rnd b computerMarker playerMarker =
     (case findWinningMove b computerMarker of
        Some move \<Rightarrow> Some move
      | None \<Rightarrow>
     (case findWinningMove b playerMarker of
        Some move \<Rightarrow> Some move
      | None \<Rightarrow>
     (if cell b 4 = Some '''' then Some 4
      else
        let availableCorners = filter (\<lambda>index. cell b index = Some '''') [0, 2, 6, 8] in
        if length availableCorners > 0
        then at_index availableCorners (rnd (length availableCorners))
        else
          let availableEdges = filter (\<lambda>index. cell b index = Some '''') [1, 3, 5, 7] in
          if length availableEdges > 0
          then at_index availableEdges (rnd (length availableEdges))
          else None)))"

subsection \<open>The GameController\<close>

record player =
  name :: string
  marker :: string

text \<open>
  \<open>currentPlayer\<close> and \<open>winner\<close> hold a reference to one of the two player objects or
  \<^verbatim>\<open>null\<close>; the comparison in \<open>switchPlayer\<close> is on references.
\<close>

datatype player_ref = Player1 | Player2

record game =
  board :: board
  player1 :: "player option"
  player2 :: "player option"
  currentPlayer :: "player_ref option"
  gameOver :: bool
  winner :: "player_ref option"
  vsComputer :: bool
  computerMarker :: string

text \<open>
  The object a controller function returns. A property that the object does not have is
  \<open>None\<close>; the \<open>winner\<close> property, when present, is a reference or \<^verbatim>\<open>null\<close>.
\<close>

record move_result =
  success :: bool
  message :: "string option"
  resultGameOver :: "bool option"
  resultWinner :: "player_ref option option"

text \<open>
  A call returns, or throws the \<^verbatim>\<open>TypeError\<close> of reading a property of \<^verbatim>\<open>null\<close>, or (for the
  minimax search only) does not finish within the fuel.
\<close>

datatype 'a outcome = Returned 'a | TypeError | OutOfFuel

definition deref :: "game \<Rightarrow> player_ref \<Rightarrow> player option" where
  "deref s r = (case r of Player1 \<Rightarrow> player1 s | Player2 \<Rightarrow> player2 s)"

definition currentMarker :: "game \<Rightarrow> string option" where
  "currentMarker s =
     (case currentPlayer s of
        None \<Rightarrow> None
      | Some r \<Rightarrow> map_option marker (deref s r))"

definition initialGame :: game where
  "initialGame =
     \<lparr>board = emptyBoard, player1 = None, player2 = None, currentPlayer = None,
      gameOver = False, winner = None, vsComputer = False, computerMarker = ''O''\<rparr>"

definition initialize :: "string \<Rightarrow> string \<Rightarrow> bool \<Rightarrow> game \<Rightarrow> game" where
  "initialize name1 name2 isVsComputer s =
     (let p1 = \<lparr>name = (if name1 = '''' then ''Player 1'' else name1), marker = ''X''\<rparr>;
          s1 = s\<lparr>player1 := Some p1\<rparr>;
          s2 = (if isVsComputer
                then s1\<lparr>player2 := Some \<lparr>name = ''Computer'', marker = ''O''\<rparr>,
                        vsComputer := True, computerMarker := ''O''\<rparr>
                else s1\<lparr>player2 :=
                          Some \<lparr>name = (if name2 = '''' then ''Player 2'' else name2),
                                marker = ''O''\<rparr>,
                        vsComputer := False\<rparr>)
      in s2\<lparr>currentPlayer := Some Player1, gameOver := False, winner := None,
             board := reset (board s2)\<rparr>)"

definition getCurrentPlayer :: "game \<Rightarrow> player_ref option" where
  "getCurrentPlayer s = currentPlayer s"

text \<open>
  \<^verbatim>\<open>currentPlayer === player1 ? player2 : player1\<close>. The variable \<open>player1\<close> holds the
  reference \<open>Player1\<close> once \<open>initialize\<close> has run and \<^verbatim>\<open>null\<close> before.
\<close>

definition ref1 :: "game \<Rightarrow> player_ref option" where
  "ref1 s = (if player1 s = None then None else Some Player1)"

definition ref2 :: "game \<Rightarrow> player_ref option" where
  "ref2 s = (if player2 s = None then None else Some Player2)"

definition switchPlayer :: "game \<Rightarrow> game" where
  "switchPlayer s = s\<lparr>currentPlayer := (if currentPlayer s = ref1 s then ref2 s else ref1 s)\<rparr>"

text \<open>
  The controller's own \<open>checkWinner\<close> tests the lines of the same table for the marker of the
  current player; \<open>None\<close> is the \<^verbatim>\<open>TypeError\<close> of \<^verbatim>\<open>currentPlayer.marker\<close> on \<^verbatim>\<open>null\<close>.
\<close>

definition controllerCheckWinner :: "game \<Rightarrow> bool option" where
  "controllerCheckWinner s = map_option (checkWinner (board s)) (currentMarker s)"

definition failure :: "string option \<Rightarrow> move_result" where
  "failure msg = \<lparr>success = False, message = msg, resultGameOver = None, resultWinner = None\<rparr>"

definition makeMove :: "int \<Rightarrow> game \<Rightarrow> (move_result \<times> game) outcome" where
  "makeMove index s =
     (if gameOver s then Returned (failure (Some ''Game is over!''), s)
      else if getCell index (board s) \<noteq> Some '''' then
        Returned (failure (Some ''Cell is already taken!''), s)
      else
        (case currentMarker s of
           None \<Rightarrow> TypeError
         | Some mk \<Rightarrow>
             let s1 = s\<lparr>board := snd (setCell index mk (board s))\<rparr> in
             (case controllerCheckWinner s1 of
                None \<Rightarrow> TypeError
              | Some True \<Rightarrow>
                  Returned
                    (\<lparr>success = True, message = None, resultGameOver = Some True,
                      resultWinner = Some (currentPlayer s1)\<rparr>,
                     s1\<lparr>gameOver := True, winner := currentPlayer s1\<rparr>)
              | Some False \<Rightarrow>
                  if isFull (board s1) then
                    Returned
                      (\<lparr>success = True, message = None, resultGameOver = Some True,
                        resultWinner = Some None\<rparr>,
                       s1\<lparr>gameOver := True\<rparr>)
                  else
                    Returned
                      (\<lparr>success = True, message = None, resultGameOver = Some False,
                        resultWinner = None\<rparr>,
                       switchPlayer s1))))"

definition isGameOver :: "game \<Rightarrow> bool" where
  "isGameOver s = gameOver s"

definition getWinner :: "game \<Rightarrow> player_ref option" where
  "getWinner s = winner s"

definition isVsComputer :: "game \<Rightarrow> bool" where
  "isVsComputer s = vsComputer s"

text \<open>
  \<^verbatim>\<open>vsComputer && currentPlayer.marker === computerMarker\<close>: the marker is read only when
  \<open>vsComputer\<close> is set.
\<close>

definition isComputerTurn :: "game \<Rightarrow> bool option" where
  "isComputerTurn s =
     (if vsComputer s then map_option (\<lambda>mk. mk = computerMarker s) (currentMarker s)
      else Some False)"

text \<open>
  \<open>makeComputerMove\<close> with the minimax selector of \<^verbatim>\<open>script.js\<close>; \<open>fuel\<close> bounds the nesting
  of the search.
\<close>

definition makeComputerMove :: "nat \<Rightarrow> game \<Rightarrow> (move_result \<times> game) outcome" where
  "makeComputerMove fuel s =
     (case isComputerTurn s of
        None \<Rightarrow> TypeError
      | Some turn \<Rightarrow>
          if \<not> turn \<or> gameOver s then Returned (failure None, s)
          else
            (case player1 s of
               None \<Rightarrow> TypeError
             | Some p1 \<Rightarrow>
                 (case getBestMove fuel (board s) (computerMarker s) (marker p1) of
                    None \<Rightarrow> OutOfFuel
                  | Some None \<Rightarrow> Returned (failure None, s)
                  | Some (Some move) \<Rightarrow> makeMove (int move) s)))"

subsection \<open>Sequences of moves\<close>

text \<open>What a call returned, when it returned.\<close>

definition resultOf :: "(move_result \<times> game) outcome \<Rightarrow> move_result option" where
  "resultOf out = (case out of Returned (r, s) \<Rightarrow> Some r | _ \<Rightarrow> None)"

text \<open>
  \<open>playMoves\<close> calls \<open>makeMove\<close> for each index in turn and is defined when every call
  reported success.
\<close>

fun playMoves :: "int list \<Rightarrow> game \<Rightarrow> game option" where
  "playMoves [] s = Some s"
| "playMoves (index # rest) s =
     (case makeMove index s of
        Returned (r, s') \<Rightarrow> if success r then playMoves rest s' else None
      | _ \<Rightarrow> None)"

definition otherPlayer :: "player_ref \<Rightarrow> player_ref" where
  "otherPlayer r = (case r of Player1 \<Rightarrow> Player2 | Player2 \<Rightarrow> Player1)"

text \<open>The two states of a started game, read off the \<open>gameOver\<close> flag.\<close>

datatype phase = InProgress | Over

definition phase :: "game \<Rightarrow> phase" where
  "phase s = (if gameOver s then Over else InProgress)"

text \<open>A game on which \<open>initialize\<close> has run: both players exist and one of them is to move.\<close>

definition started :: "game \<Rightarrow> bool" where
  "started s =
     (player1 s \<noteq> None \<and> player2 s \<noteq> None \<and> currentPlayer s \<noteq> None \<and>
      (winner s \<noteq> None \<longrightarrow> gameOver s))"

subsection \<open>Measures and predicates of the search\<close>

text \<open>The number of free cells among the nine that the loops visit.\<close>

definition empties :: "board \<Rightarrow> nat" where
  "empties b = length (filter (\<lambda>i. cell b i = Some '''') [0..<9])"

text \<open>The score \<open>getBestMove\<close> gives to the free cell \<open>j\<close>.\<close>

definition moveScore :: "nat \<Rightarrow> board \<Rightarrow> string \<Rightarrow> string \<Rightarrow> nat \<Rightarrow> jsnum option" where
  "moveScore fuel b cm pm j = minimax fuel (b[j := cm]) 0 False cm pm"

text \<open>
  The calls of \<open>minimax\<close> that \<open>getBestMove\<close> on the board \<open>root\<close> gives rise to: the
  board, the depth and the flag \<open>isMaximizing\<close> of each call. The loop of \<open>getBestMove\<close>
  makes the calls at depth 0; a call that goes past its base cases makes the calls one level
  down.
\<close>

inductive searched :: "board \<Rightarrow> string \<Rightarrow> string \<Rightarrow> board \<Rightarrow> int \<Rightarrow> bool \<Rightarrow> bool"
  for root :: board and cm :: string and pm :: string where
  first: "i < 9 \<Longrightarrow> cell root i = Some '''' \<Longrightarrow> searched root cm pm (root[i := cm]) 0 False"
| deeper: "searched root cm pm b d m \<Longrightarrow> evaluate b cm pm = 0 \<Longrightarrow> \<not> isBoardFull b \<Longrightarrow>
           i < 9 \<Longrightarrow> cell b i = Some '''' \<Longrightarrow>
           searched root cm pm (b[i := (if m then cm else pm)]) (d + 1) (\<not> m)"

text \<open>
  Cell \<open>i\<close> is the free cell of the line \<open>t\<close> and the other two cells of the line hold
  the marker: writing the marker there completes the line. \<open>completes\<close> says so of some
  line of the table.
\<close>

definition lineMove :: "board \<Rightarrow> string \<Rightarrow> nat \<Rightarrow> nat \<times> nat \<times> nat \<Rightarrow> bool" where
  "lineMove b mk i t =
     (case t of (x, y, z) \<Rightarrow>
        (i = x \<and> cell b x = Some '''' \<and> cell b y = Some mk \<and> cell b z = Some mk) \<or>
        (i = y \<and> cell b y = Some '''' \<and> cell b x = Some mk \<and> cell b z = Some mk) \<or>
        (i = z \<and> cell b z = Some '''' \<and> cell b x = Some mk \<and> cell b y = Some mk))"

definition completes :: "board \<Rightarrow> string \<Rightarrow> nat \<Rightarrow> bool" where
  "completes b mk i = list_ex (lineMove b mk i) winTriples"

subsection \<open>Games against the computer\<close>

text \<open>
  \<open>secure n b m cm pm\<close>: on the board \<open>b\<close> the computer, playing \<open>cm\<close> against \<open>pm\<close>, can
  keep the opponent from ever completing a line; \<open>m\<close> says that the computer is to move and
  \<open>n\<close> bounds the number of moves looked ahead. The cells are tried centre first, then
  corners, then edges.
\<close>

definition scanOrder :: "nat list" where
  "scanOrder = [4, 0, 2, 6, 8, 1, 3, 5, 7]"

fun secure :: "nat \<Rightarrow> board \<Rightarrow> bool \<Rightarrow> string \<Rightarrow> string \<Rightarrow> bool" where
  "secure 0 b m cm pm = False"
| "secure (Suc n) b m cm pm =
     (if checkWinner b cm then True
      else if checkWinner b pm then False
      else if isBoardFull b then True
      else if m then
        list_ex (\<lambda>i. cell b i = Some '''' \<and> secure n (b[i := cm]) False cm pm) scanOrder
      else
        list_all (\<lambda>i. cell b i = Some '''' \<longrightarrow> secure n (b[i := pm]) True cm pm) scanOrder)"

text \<open>
  The states of a game against the computer. The game starts with \<open>initialize\<close> in computer
  mode on the board of nine cells; when it is not the computer's turn the opponent calls
  \<open>makeMove\<close> with any index (a rejected call leaves the state as it is); the computer moves
  through \<open>makeComputerMove\<close>, with fuel for nine nested calls of the search.
\<close>

inductive played :: "game \<Rightarrow> bool" where
  start: "length (board s0) = 9 \<Longrightarrow> played (initialize name1 name2 True s0)"
| human: "played s \<Longrightarrow> isComputerTurn s = Some False \<Longrightarrow>
          makeMove index s = Returned (r, s') \<Longrightarrow> played s'"
| computer: "played s \<Longrightarrow> 9 \<le> fuel \<Longrightarrow>
          makeComputerMove fuel s = Returned (r, s') \<Longrightarrow> played s'"

text \<open>What holds of every state of such a game.\<close>

definition gameInv :: "game \<Rightarrow> bool" where
  "gameInv s =
     (length (board s) = 9 \<and>
      map_option marker (player1 s) = Some ''X'' \<and>
      map_option marker (player2 s) = Some ''O'' \<and>
      vsComputer s \<and> computerMarker s = ''O'' \<and>
      (currentPlayer s = Some Player1 \<or> currentPlayer s = Some Player2) \<and>
      \<not> checkWinner (board s) ''X'' \<and>
      (gameOver s \<longrightarrow>
         (winner s = Some Player2 \<and> checkWinner (board s) ''O'') \<or>
         (winner s = None \<and> isFull (board s))) \<and>
      (\<not> gameOver s \<longrightarrow>
         winner s = None \<and> \<not> checkWinner (board s) ''O'' \<and> \<not> isFull (board s) \<and>
         secure (Suc (empties (board s))) (board s) (currentPlayer s = Some Player2)
           ''O'' ''X''))"

section \<open>Properties\<close>

subsection \<open>Gameboard\<close>

text \<open>
  C8. \<open>setCell\<close> reports success exactly when the index lies in 0..8 and the cell there is
  empty; then the marker is in that cell and no other cell has changed. In every other case
  it reports failure and the board is the one it was given.
\<close>

theorem setCell_spec:
  "(fst (setCell index mk b) \<longleftrightarrow> 0 \<le> index \<and> index < 9 \<and> cell b (nat index) = Some '''') \<and>
   (fst (setCell index mk b) \<longrightarrow>
      cell (snd (setCell index mk b)) (nat index) = Some mk \<and>
      length (snd (setCell index mk b)) = length b \<and>
      (\<forall>j. j \<noteq> nat index \<longrightarrow> cell (snd (setCell index mk b)) j = cell b j)) \<and>
   (\<not> fst (setCell index mk b) \<longrightarrow> snd (setCell index mk b) = b)"
  by (auto simp: setCell_def cell_def)

theorem setCell_spec_witness:
  "fst (setCell 4 ''X'' emptyBoard) \<and>
   snd (setCell 4 ''X'' emptyBoard) = ['''', '''', '''', '''', ''X'', '''', '''', '''', ''''] \<and>
   \<not> fst (setCell 9 ''X'' emptyBoard) \<and> snd (setCell 9 ''X'' emptyBoard) = emptyBoard \<and>
   \<not> fst (setCell (- 1) ''X'' emptyBoard) \<and>
   \<not> fst (setCell 4 ''O'' (snd (setCell 4 ''X'' emptyBoard)))"
  using setCell_spec [of 4 "''X''" emptyBoard] setCell_spec [of 9 "''X''" emptyBoard]
    setCell_spec [of "- 1" "''X''" emptyBoard]
    setCell_spec [of 4 "''O''" "snd (setCell 4 ''X'' emptyBoard)"]
  by (simp add: setCell_def emptyBoard_def cell_def)

subsection \<open>Rejected moves\<close>

text \<open>
  C6. When the game is over or the target cell is not empty, \<open>makeMove\<close> returns a failure
  and the state it leaves is the state it found: board, current player, game-over flag and
  winner are unchanged. The game-over test comes first, so a finished game reports
  \<open>Game is over!\<close> whatever the cell holds.
\<close>

theorem makeMove_rejected:
  assumes "gameOver s \<or> getCell index (board s) \<noteq> Some ''''"
  shows "makeMove index s =
           Returned (failure (Some (if gameOver s then ''Game is over!''
                                    else ''Cell is already taken!'')), s) \<and>
         \<not> success (failure (Some (if gameOver s then ''Game is over!''
                                    else ''Cell is already taken!'')))"
  using assms by (auto simp: makeMove_def failure_def)

theorem makeMove_rejected_witness:
  "makeMove 4 (initialGame\<lparr>gameOver := True\<rparr>) =
     Returned (failure (Some ''Game is over!''), initialGame\<lparr>gameOver := True\<rparr>) \<and>
   makeMove 0 (initialGame\<lparr>board := [''X'', '''', '''', '''', '''', '''', '''', '''', '''']\<rparr>) =
     Returned (failure (Some ''Cell is already taken!''),
               initialGame\<lparr>board := [''X'', '''', '''', '''', '''', '''', '''', '''', '''']\<rparr>)"
  using makeMove_rejected [of "initialGame\<lparr>gameOver := True\<rparr>" 4]
    makeMove_rejected
      [of "initialGame\<lparr>board := [''X'', '''', '''', '''', '''', '''', '''', '''', '''']\<rparr>" 0]
  by (simp add: initialGame_def getCell_def cell_def)

text \<open>
  C10. An index outside 0..8 in a game that is not over: \<open>getCell\<close> returns \<^verbatim>\<open>null\<close>, which
  is not the empty string, so \<open>makeMove\<close> fails with the message for an occupied cell and the
  state is unchanged.
\<close>

theorem makeMove_out_of_range:
  assumes "\<not> gameOver s" and "index < 0 \<or> 9 \<le> index"
  shows "getCell index (board s) = None \<and>
         makeMove index s = Returned (failure (Some ''Cell is already taken!''), s) \<and>
         \<not> success (failure (Some ''Cell is already taken!''))"
  using assms by (auto simp: makeMove_def getCell_def failure_def)

theorem makeMove_out_of_range_witness:
  "makeMove (- 1) (initialize ''Ann'' ''Bob'' False initialGame) =
     Returned (failure (Some ''Cell is already taken!''),
               initialize ''Ann'' ''Bob'' False initialGame) \<and>
   makeMove 9 (initialize ''Ann'' ''Bob'' False initialGame) =
     Returned (failure (Some ''Cell is already taken!''),
               initialize ''Ann'' ''Bob'' False initialGame)"
  using makeMove_out_of_range [of "initialize ''Ann'' ''Bob'' False initialGame" "- 1"]
    makeMove_out_of_range [of "initialize ''Ann'' ''Bob'' False initialGame" 9]
  by (simp add: initialize_def initialGame_def Let_def)

subsection \<open>Alternation of turns\<close>

lemma started_initialize: "started (initialize name1 name2 isVs s)"
  by (simp add: started_def initialize_def Let_def)

lemma makeMove_success_step:
  assumes "makeMove index s = Returned (r, s')" "success r" "started s"
  shows "started s' \<and> \<not> gameOver s \<and>
         (\<not> gameOver s' \<longrightarrow> currentPlayer s' = map_option otherPlayer (currentPlayer s))"
  using assms
  by (auto simp: makeMove_def failure_def started_def switchPlayer_def ref1_def ref2_def
      otherPlayer_def controllerCheckWinner_def currentMarker_def deref_def Let_def
      split: if_splits option.splits bool.splits player_ref.splits)

lemma playMoves_alternates:
  assumes "playMoves moves s = Some s'" "started s" "\<not> gameOver s'"
  shows "started s' \<and>
    currentPlayer s' = (if even (length moves) then currentPlayer s
                        else map_option otherPlayer (currentPlayer s))"
  using assms
proof (induction moves arbitrary: s)
  case Nil
  then show ?case by simp
next
  case (Cons index rest)
  from Cons.prems(1) obtain r s1 where
    mv: "makeMove index s = Returned (r, s1)" "success r" and rest: "playMoves rest s1 = Some s'"
    by (auto split: outcome.splits if_splits)
  have st1: "started s1" using makeMove_success_step [OF mv Cons.prems(2)] by simp
  from Cons.IH [OF rest st1 Cons.prems(3)]
  have ih: "started s'" "currentPlayer s' = (if even (length rest) then currentPlayer s1
                        else map_option otherPlayer (currentPlayer s1))" by simp_all
  have "\<not> gameOver s1"
  proof
    assume go: "gameOver s1"
    show False
    proof (cases rest)
      case Nil
      with rest go Cons.prems(3) show False by simp
    next
      case (Cons j js)
      with rest go show False
        by (auto simp: makeMove_def failure_def split: outcome.splits if_splits)
    qed
  qed
  with makeMove_success_step [OF mv Cons.prems(2)]
  have cur1: "currentPlayer s1 = map_option otherPlayer (currentPlayer s)" by simp
  have oo: "map_option otherPlayer (map_option otherPlayer (currentPlayer s)) = currentPlayer s"
    by (cases "currentPlayer s") (auto simp: otherPlayer_def split: player_ref.splits)
  show ?case using ih cur1 oo by simp
qed

lemma playMoves_started:
  "playMoves moves s = Some s' \<Longrightarrow> started s \<Longrightarrow> started s'"
proof (induction moves arbitrary: s)
  case Nil
  then show ?case by simp
next
  case (Cons index rest)
  from Cons.prems(1) obtain r s1 where
    mv: "makeMove index s = Returned (r, s1)" "success r" and rest: "playMoves rest s1 = Some s'"
    by (auto split: outcome.splits if_splits)
  have "started s1" using makeMove_success_step [OF mv Cons.prems(2)] by simp
  with Cons.IH [OF rest] show ?case .
qed

text \<open>
  C7. After \<open>initialize\<close> and any sequence of successful calls of \<open>makeMove\<close> the game is in
  exactly one of the two phases; a winner is recorded only in phase \<open>Over\<close>; and while the
  game is in progress the player to move is player 1 after an even number of moves and
  player 2 after an odd number, so the turn alternates from move to move, starting with
  player 1.
\<close>

theorem turns_alternate:
  assumes "playMoves moves (initialize name1 name2 isVs s0) = Some s"
  shows "(phase s = InProgress \<or> phase s = Over) \<and>
         \<not> (phase s = InProgress \<and> phase s = Over) \<and>
         (phase s = InProgress \<longleftrightarrow> \<not> gameOver s) \<and>
         (winner s \<noteq> None \<longrightarrow> phase s = Over) \<and>
         (phase s = InProgress \<longrightarrow>
            currentPlayer s = Some (if even (length moves) then Player1 else Player2))"
proof -
  have st: "started (initialize name1 name2 isVs s0)" by (rule started_initialize)
  have cur0: "currentPlayer (initialize name1 name2 isVs s0) = Some Player1"
    by (simp add: initialize_def Let_def)
  have "started s" using playMoves_started [OF assms st] .
  then have w: "winner s \<noteq> None \<longrightarrow> gameOver s" by (simp add: started_def)
  have "\<not> gameOver s \<longrightarrow>
          currentPlayer s = Some (if even (length moves) then Player1 else Player2)"
    using playMoves_alternates [OF assms st] cur0 by (auto simp: otherPlayer_def)
  with w show ?thesis by (auto simp: phase_def)
qed

theorem turns_alternate_witness:
  "playMoves [0, 4, 8] (initialize ''Ann'' ''Bob'' False initialGame) \<noteq> None \<and>
   map_option currentPlayer (playMoves [0, 4, 8] (initialize ''Ann'' ''Bob'' False initialGame))
     = Some (Some Player2) \<and>
   map_option phase (playMoves [0, 4, 8] (initialize ''Ann'' ''Bob'' False initialGame))
     = Some InProgress"
proof -
  obtain s where s: "playMoves [0, 4, 8] (initialize ''Ann'' ''Bob'' False initialGame) = Some s"
    and go: "\<not> gameOver s"
    by (simp add: initialize_def initialGame_def Let_def makeMove_def getCell_def cell_def
        setCell_def reset_def assign_def emptyBoard_def upt_rec currentMarker_def deref_def
        controllerCheckWinner_def checkWinner_def winConditions_def isFull_def
        switchPlayer_def ref1_def ref2_def)
  from turns_alternate [OF s] go show ?thesis
    using s by (simp add: phase_def)
qed

subsection \<open>The loops of the search\<close>

lemma js_gt_irrefl [simp]: "\<not> js_gt v v"
  by (cases v) auto

lemma js_gt_trans: "js_gt a b \<Longrightarrow> js_gt b c \<Longrightarrow> js_gt a c"
  by (cases a; cases b; cases c) auto

lemma js_not_gt_trans: "\<not> js_gt a b \<Longrightarrow> \<not> js_gt b c \<Longrightarrow> \<not> js_gt a c"
  by (cases a; cases b; cases c) auto

lemma js_gt_not_gt_trans: "js_gt a b \<Longrightarrow> \<not> js_gt c b \<Longrightarrow> js_gt a c"
  by (cases a; cases b; cases c) auto

lemma js_gt_imp_not_gt: "js_gt a b \<Longrightarrow> \<not> js_gt b a"
  by (cases a; cases b) auto

lemma moveStep_fold_cell_aux:
  "case fold (moveStep b cm rec) [0..<k] (Some (NegInf, None)) of
     None \<Rightarrow> True
   | Some (bs, None) \<Rightarrow> True
   | Some (bs, Some m) \<Rightarrow> m < k \<and> cell b m = Some ''''"
proof (induction k)
  case 0
  then show ?case by simp
next
  case (Suc k)
  then show ?case
    by (auto simp: moveStep_def split: option.splits prod.splits if_splits)
qed

lemma getBestMove_cell:
  "getBestMove fuel b cm pm = Some (Some m) \<Longrightarrow> m < 9 \<and> cell b m = Some ''''"
  using moveStep_fold_cell_aux
    [where b = b and cm = cm and rec = "\<lambda>b'. minimax fuel b' 0 False cm pm" and k = 9]
  by (auto simp: getBestMove_def split: option.splits prod.splits)

text \<open>
  The loop of \<open>getBestMove\<close> over the first \<open>k\<close> cells, when every score is a finite number.
\<close>

lemma moveStep_fold_best:
  assumes "\<forall>j<k. cell b j = Some '''' \<longrightarrow> (\<exists>x. rec (b[j := cm]) = Some (Fin x))"
  shows "\<exists>bs bm. fold (moveStep b cm rec) [0..<k] (Some (NegInf, None)) = Some (bs, bm) \<and>
     (case bm of
        None \<Rightarrow> bs = NegInf \<and> (\<forall>j<k. cell b j \<noteq> Some '''')
      | Some m \<Rightarrow> m < k \<and> cell b m = Some '''' \<and> rec (b[m := cm]) = Some bs \<and>
          (\<forall>j<k. cell b j = Some '''' \<longrightarrow>
             (\<exists>v. rec (b[j := cm]) = Some v \<and> \<not> js_gt v bs \<and> (j < m \<longrightarrow> js_gt bs v))))"
  using assms
proof (induction k)
  case 0
  then show ?case by simp
next
  case (Suc k)
  then obtain bs bm where
    f: "fold (moveStep b cm rec) [0..<k] (Some (NegInf, None)) = Some (bs, bm)" and
    inv: "case bm of
        None \<Rightarrow> bs = NegInf \<and> (\<forall>j<k. cell b j \<noteq> Some '''')
      | Some m \<Rightarrow> m < k \<and> cell b m = Some '''' \<and> rec (b[m := cm]) = Some bs \<and>
          (\<forall>j<k. cell b j = Some '''' \<longrightarrow>
             (\<exists>v. rec (b[j := cm]) = Some v \<and> \<not> js_gt v bs \<and> (j < m \<longrightarrow> js_gt bs v)))"
    by force
  show ?case
  proof (cases "cell b k = Some ''''")
    case False
    then have "fold (moveStep b cm rec) [0..<Suc k] (Some (NegInf, None)) = Some (bs, bm)"
      using f by (simp add: moveStep_def)
    moreover have "case bm of
        None \<Rightarrow> bs = NegInf \<and> (\<forall>j<Suc k. cell b j \<noteq> Some '''')
      | Some m \<Rightarrow> m < Suc k \<and> cell b m = Some '''' \<and> rec (b[m := cm]) = Some bs \<and>
          (\<forall>j<Suc k. cell b j = Some '''' \<longrightarrow>
             (\<exists>v. rec (b[j := cm]) = Some v \<and> \<not> js_gt v bs \<and> (j < m \<longrightarrow> js_gt bs v)))"
      using inv False by (auto split: option.splits simp: less_Suc_eq)
    ultimately show ?thesis by blast
  next
    case True
    with Suc.prems obtain x where x: "rec (b[k := cm]) = Some (Fin x)" by auto
    show ?thesis
    proof (cases "js_gt (Fin x) bs")
      case gt: True
      have "fold (moveStep b cm rec) [0..<Suc k] (Some (NegInf, None)) = Some (Fin x, Some k)"
        using f True x gt by (simp add: moveStep_def)
      moreover have "\<forall>j<Suc k. cell b j = Some '''' \<longrightarrow>
             (\<exists>v. rec (b[j := cm]) = Some v \<and> \<not> js_gt v (Fin x) \<and> (j < k \<longrightarrow> js_gt (Fin x) v))"
      proof (intro allI impI)
        fix j assume j: "j < Suc k" "cell b j = Some ''''"
        show "\<exists>v. rec (b[j := cm]) = Some v \<and> \<not> js_gt v (Fin x) \<and> (j < k \<longrightarrow> js_gt (Fin x) v)"
        proof (cases "j = k")
          case True
          then show ?thesis using x by simp
        next
          case False
          with j have jk: "j < k" by simp
          show ?thesis
          proof (cases bm)
            case None
            with inv jk j show ?thesis by simp
          next
            case (Some m)
            with inv jk j obtain v where v: "rec (b[j := cm]) = Some v" "\<not> js_gt v bs"
              by auto
            from gt v(2) have "js_gt (Fin x) v" by (rule js_gt_not_gt_trans)
            then show ?thesis using v(1) by (simp add: js_gt_imp_not_gt)
          qed
        qed
      qed
      ultimately show ?thesis using True x by simp
    next
      case ngt: False
      have step: "fold (moveStep b cm rec) [0..<Suc k] (Some (NegInf, None)) = Some (bs, bm)"
        using f True x ngt by (simp add: moveStep_def)
      from ngt have "bs \<noteq> NegInf" by auto
      with inv obtain m where m: "bm = Some m" by (cases bm) auto
      with inv have im: "m < k" "cell b m = Some ''''" "rec (b[m := cm]) = Some bs"
          "\<forall>j<k. cell b j = Some '''' \<longrightarrow>
             (\<exists>v. rec (b[j := cm]) = Some v \<and> \<not> js_gt v bs \<and> (j < m \<longrightarrow> js_gt bs v))"
        by simp_all
      have "\<forall>j<Suc k. cell b j = Some '''' \<longrightarrow>
             (\<exists>v. rec (b[j := cm]) = Some v \<and> \<not> js_gt v bs \<and> (j < m \<longrightarrow> js_gt bs v))"
        using im(1,4) x ngt by (auto simp: less_Suc_eq)
      with step m im(1,2,3) show ?thesis by simp
    qed
  qed
qed

text \<open>The loops of \<open>minimax\<close> over the first \<open>k\<close> cells.\<close>

lemma scoreStep_fold_max:
  assumes "\<forall>j<k. cell b j = Some '''' \<longrightarrow> rec (b[j := mk]) \<noteq> None"
  shows "\<exists>v. fold (scoreStep b mk rec js_max) [0..<k] (Some init) = Some v \<and>
     (v = init \<or> (\<exists>j<k. cell b j = Some '''' \<and> rec (b[j := mk]) = Some v)) \<and>
     \<not> js_gt init v \<and>
     (\<forall>j<k. cell b j = Some '''' \<longrightarrow> (\<exists>w. rec (b[j := mk]) = Some w \<and> \<not> js_gt w v))"
  using assms
proof (induction k)
  case 0
  then show ?case by simp
next
  case (Suc k)
  from Suc.prems have "\<forall>j<k. cell b j = Some '''' \<longrightarrow> rec (b[j := mk]) \<noteq> None" by simp
  from Suc.IH [OF this] obtain v where
    f: "fold (scoreStep b mk rec js_max) [0..<k] (Some init) = Some v" and
    src: "v = init \<or> (\<exists>j<k. cell b j = Some '''' \<and> rec (b[j := mk]) = Some v)" and
    lo: "\<not> js_gt init v" and
    hi: "\<forall>j<k. cell b j = Some '''' \<longrightarrow> (\<exists>w. rec (b[j := mk]) = Some w \<and> \<not> js_gt w v)"
    by blast
  show ?case
  proof (cases "cell b k = Some ''''")
    case False
    have step: "fold (scoreStep b mk rec js_max) [0..<Suc k] (Some init) = Some v"
      using f False by (simp add: scoreStep_def)
    have src': "v = init \<or> (\<exists>j<Suc k. cell b j = Some '''' \<and> rec (b[j := mk]) = Some v)"
      using src less_Suc_eq by blast
    have hi': "\<forall>j<Suc k. cell b j = Some '''' \<longrightarrow> (\<exists>w. rec (b[j := mk]) = Some w \<and> \<not> js_gt w v)"
      using hi False less_Suc_eq by blast
    from step src' lo hi' show ?thesis by blast
  next
    case True
    with Suc.prems obtain w where w: "rec (b[k := mk]) = Some w" by auto
    have step: "fold (scoreStep b mk rec js_max) [0..<Suc k] (Some init) = Some (js_max w v)"
      using f True w by (simp add: scoreStep_def)
    show ?thesis
    proof (cases "js_gt v w")
      case keep: True
      then have m: "js_max w v = v" by (simp add: js_max_def)
      have wv: "\<not> js_gt w v" using keep by (rule js_gt_imp_not_gt)
      have src': "v = init \<or> (\<exists>j<Suc k. cell b j = Some '''' \<and> rec (b[j := mk]) = Some v)"
        using src less_Suc_eq by blast
      have hi': "\<forall>j<Suc k. cell b j = Some '''' \<longrightarrow> (\<exists>w. rec (b[j := mk]) = Some w \<and> \<not> js_gt w v)"
        using hi w wv less_Suc_eq by metis
      from step m src' lo hi' show ?thesis by auto
    next
      case False
      then have m: "js_max w v = w" by (simp add: js_max_def)
      have a: "\<not> js_gt init w" using lo False by (rule js_not_gt_trans)
      have b: "\<forall>j<k. cell b j = Some '''' \<longrightarrow> (\<exists>u. rec (b[j := mk]) = Some u \<and> \<not> js_gt u w)"
      proof (intro allI impI)
        fix j assume "j < k" "cell b j = Some ''''"
        with hi obtain u where u: "rec (b[j := mk]) = Some u" "\<not> js_gt u v" by blast
        have "\<not> js_gt u w" using u(2) False by (rule js_not_gt_trans)
        with u(1) show "\<exists>u. rec (b[j := mk]) = Some u \<and> \<not> js_gt u w" by blast
      qed
      have b': "\<forall>j<Suc k. cell b j = Some '''' \<longrightarrow> (\<exists>u. rec (b[j := mk]) = Some u \<and> \<not> js_gt u w)"
        using b w less_Suc_eq by (metis js_gt_irrefl)
      have c: "w = init \<or> (\<exists>j<Suc k. cell b j = Some '''' \<and> rec (b[j := mk]) = Some w)"
        using True w by blast
      from step m a b' c show ?thesis by auto
    qed
  qed
qed

lemma scoreStep_fold_min:
  assumes "\<forall>j<k. cell b j = Some '''' \<longrightarrow> rec (b[j := mk]) \<noteq> None"
  shows "\<exists>v. fold (scoreStep b mk rec js_min) [0..<k] (Some init) = Some v \<and>
     (v = init \<or> (\<exists>j<k. cell b j = Some '''' \<and> rec (b[j := mk]) = Some v)) \<and>
     \<not> js_gt v init \<and>
     (\<forall>j<k. cell b j = Some '''' \<longrightarrow> (\<exists>w. rec (b[j := mk]) = Some w \<and> \<not> js_gt v w))"
  using assms
proof (induction k)
  case 0
  then show ?case by simp
next
  case (Suc k)
  from Suc.prems have "\<forall>j<k. cell b j = Some '''' \<longrightarrow> rec (b[j := mk]) \<noteq> None" by simp
  from Suc.IH [OF this] obtain v where
    f: "fold (scoreStep b mk rec js_min) [0..<k] (Some init) = Some v" and
    src: "v = init \<or> (\<exists>j<k. cell b j = Some '''' \<and> rec (b[j := mk]) = Some v)" and
    lo: "\<not> js_gt v init" and
    hi: "\<forall>j<k. cell b j = Some '''' \<longrightarrow> (\<exists>w. rec (b[j := mk]) = Some w \<and> \<not> js_gt v w)"
    by blast
  show ?case
  proof (cases "cell b k = Some ''''")
    case False
    have step: "fold (scoreStep b mk rec js_min) [0..<Suc k] (Some init) = Some v"
      using f False by (simp add: scoreStep_def)
    have src': "v = init \<or> (\<exists>j<Suc k. cell b j = Some '''' \<and> rec (b[j := mk]) = Some v)"
      using src less_Suc_eq by blast
    have hi': "\<forall>j<Suc k. cell b j = Some '''' \<longrightarrow> (\<exists>w. rec (b[j := mk]) = Some w \<and> \<not> js_gt v w)"
      using hi False less_Suc_eq by blast
    from step src' lo hi' show ?thesis by blast
  next
    case True
    with Suc.prems obtain w where w: "rec (b[k := mk]) = Some w" by auto
    have step: "fold (scoreStep b mk rec js_min) [0..<Suc k] (Some init) = Some (js_min w v)"
      using f True w by (simp add: scoreStep_def)
    show ?thesis
    proof (cases "js_gt w v")
      case keep: True
      then have m: "js_min w v = v" by (simp add: js_min_def)
      have wv: "\<not> js_gt v w" using keep by (rule js_gt_imp_not_gt)
      have src': "v = init \<or> (\<exists>j<Suc k. cell b j = Some '''' \<and> rec (b[j := mk]) = Some v)"
        using src less_Suc_eq by blast
      have hi': "\<forall>j<Suc k. cell b j = Some '''' \<longrightarrow> (\<exists>w. rec (b[j := mk]) = Some w \<and> \<not> js_gt v w)"
        using hi w wv less_Suc_eq by metis
      from step m src' lo hi' show ?thesis by auto
    next
      case False
      then have m: "js_min w v = w" by (simp add: js_min_def)
      have a: "\<not> js_gt w init" using False lo by (rule js_not_gt_trans)
      have b: "\<forall>j<k. cell b j = Some '''' \<longrightarrow> (\<exists>u. rec (b[j := mk]) = Some u \<and> \<not> js_gt w u)"
      proof (intro allI impI)
        fix j assume "j < k" "cell b j = Some ''''"
        with hi obtain u where u: "rec (b[j := mk]) = Some u" "\<not> js_gt v u" by blast
        have "\<not> js_gt w u" using False u(2) by (rule js_not_gt_trans)
        with u(1) show "\<exists>u. rec (b[j := mk]) = Some u \<and> \<not> js_gt w u" by blast
      qed
      have b': "\<forall>j<Suc k. cell b j = Some '''' \<longrightarrow> (\<exists>u. rec (b[j := mk]) = Some u \<and> \<not> js_gt w u)"
        using b w less_Suc_eq by (metis js_gt_irrefl)
      have c: "w = init \<or> (\<exists>j<Suc k. cell b j = Some '''' \<and> rec (b[j := mk]) = Some w)"
        using True w by blast
      from step m a b' c show ?thesis by auto
    qed
  qed
qed

text \<open>The loops depend on the recursive call only at the boards they pass to it.\<close>

lemma scoreStep_cong:
  assumes "cell b k = Some '''' \<Longrightarrow> rec (b[k := mk]) = rec' (b[k := mk])"
  shows "scoreStep b mk rec upd k st = scoreStep b mk rec' upd k st"
proof (cases "cell b k = Some ''''")
  case True
  with assms have "rec (b[k := mk]) = rec' (b[k := mk])" by simp
  then show ?thesis by (cases st) (simp_all add: scoreStep_def)
next
  case False
  then show ?thesis by (cases st) (simp_all add: scoreStep_def)
qed

lemma moveStep_cong:
  assumes "cell b k = Some '''' \<Longrightarrow> rec (b[k := mk]) = rec' (b[k := mk])"
  shows "moveStep b mk rec k st = moveStep b mk rec' k st"
proof (cases "cell b k = Some ''''")
  case True
  with assms have "rec (b[k := mk]) = rec' (b[k := mk])" by simp
  then show ?thesis by (cases st) (auto simp: moveStep_def)
next
  case False
  then show ?thesis by (cases st) (auto simp: moveStep_def)
qed

lemma scoreStep_fold_cong:
  assumes "\<forall>j<k. cell b j = Some '''' \<longrightarrow> rec (b[j := mk]) = rec' (b[j := mk])"
  shows "fold (scoreStep b mk rec upd) [0..<k] init = fold (scoreStep b mk rec' upd) [0..<k] init"
  using assms
proof (induction k)
  case 0
  then show ?case by simp
next
  case (Suc k)
  then have ih: "fold (scoreStep b mk rec upd) [0..<k] init =
                 fold (scoreStep b mk rec' upd) [0..<k] init" by simp
  from Suc.prems have "cell b k = Some '''' \<Longrightarrow> rec (b[k := mk]) = rec' (b[k := mk])" by simp
  then have "scoreStep b mk rec upd k (fold (scoreStep b mk rec' upd) [0..<k] init) =
             scoreStep b mk rec' upd k (fold (scoreStep b mk rec' upd) [0..<k] init)"
    by (rule scoreStep_cong)
  then show ?case using ih by simp
qed

lemma moveStep_fold_cong:
  assumes "\<forall>j<k. cell b j = Some '''' \<longrightarrow> rec (b[j := mk]) = rec' (b[j := mk])"
  shows "fold (moveStep b mk rec) [0..<k] init = fold (moveStep b mk rec') [0..<k] init"
  using assms
proof (induction k)
  case 0
  then show ?case by simp
next
  case (Suc k)
  then have ih: "fold (moveStep b mk rec) [0..<k] init =
                 fold (moveStep b mk rec') [0..<k] init" by simp
  from Suc.prems have "cell b k = Some '''' \<Longrightarrow> rec (b[k := mk]) = rec' (b[k := mk])" by simp
  then have "moveStep b mk rec k (fold (moveStep b mk rec') [0..<k] init) =
             moveStep b mk rec' k (fold (moveStep b mk rec') [0..<k] init)"
    by (rule moveStep_cong)
  then show ?case using ih by simp
qed

text \<open>Filling a free cell with a marker lowers the number of free cells.\<close>

lemma empties_card: "empties b = card {i. i < 9 \<and> cell b i = Some ''''}"
proof -
  have "card (set (filter (\<lambda>i. cell b i = Some '''') [0..<9])) =
        length (filter (\<lambda>i. cell b i = Some '''') [0..<9])"
    by (rule distinct_card) simp
  moreover have "set (filter (\<lambda>i. cell b i = Some '''') [0..<9]) =
                 {i. i < 9 \<and> cell b i = Some ''''}"
    by auto
  ultimately show ?thesis by (simp only: empties_def)
qed

lemma cell_update: "cell (b[i := x]) j = (if j = i \<and> i < length b then Some x else cell b j)"
  by (auto simp: cell_def)

lemma empties_update:
  assumes "i < 9" "cell b i = Some ''''" "mk \<noteq> ''''"
  shows "empties (b[i := mk]) < empties b"
proof -
  have il: "i < length b" using assms(2) by (simp add: cell_def split: if_splits)
  have sub: "{j. j < 9 \<and> cell (b[i := mk]) j = Some ''''} \<subseteq> {j. j < 9 \<and> cell b j = Some ''''}"
    using assms(3) by (auto simp: cell_update split: if_splits)
  have "i \<in> {j. j < 9 \<and> cell b j = Some ''''}" using assms by simp
  moreover have "i \<notin> {j. j < 9 \<and> cell (b[i := mk]) j = Some ''''}"
    using assms(3) il by (simp add: cell_update)
  ultimately have "{j. j < 9 \<and> cell (b[i := mk]) j = Some ''''} \<subset> {j. j < 9 \<and> cell b j = Some ''''}"
    using sub by blast
  moreover have "finite {j. j < 9 \<and> cell b j = Some ''''}" by simp
  ultimately show ?thesis unfolding empties_card by (rule psubset_card_mono [rotated])
qed

lemma not_full_has_empty:
  assumes "length b = 9" "\<not> isBoardFull b"
  shows "\<exists>i<9. cell b i = Some ''''"
proof -
  from assms(2) obtain c where "c \<in> set b" "c = ''''"
    by (auto simp: isBoardFull_def list_all_iff)
  then obtain i where "i < length b" "b ! i = ''''" by (auto simp: in_set_conv_nth)
  with assms(1) show ?thesis by (auto simp: cell_def)
qed

lemma full_no_empty: "isBoardFull b \<Longrightarrow> cell b i \<noteq> Some ''''"
  by (auto simp: isBoardFull_def list_all_iff cell_def)

lemma empties_le: "empties b \<le> 9"
proof -
  have "length (filter (\<lambda>i. cell b i = Some '''') [0..<9]) \<le> length [0..<9]"
    by (rule length_filter_le)
  then show ?thesis by (simp add: empties_def)
qed

subsection \<open>Fuel\<close>

lemma minimax_terminal_cases:
  "minimax (Suc n) b d m cm pm =
     (if checkWinner b cm then Some (Fin (10 - d))
      else if checkWinner b pm then Some (Fin (- 10 + d))
      else if isBoardFull b then Some (Fin 0)
      else if m then
        fold (scoreStep b cm (\<lambda>b'. minimax n b' (d + 1) False cm pm) js_max)
             [0..<9] (Some NegInf)
      else
        fold (scoreStep b pm (\<lambda>b'. minimax n b' (d + 1) True cm pm) js_min)
             [0..<9] (Some PosInf))"
  by (simp add: evaluate_def Let_def del: upt_Suc)

declare minimax.simps(2) [simp del]

text \<open>
  With markers other than the empty string, fuel above the number of free cells is enough,
  and the score is a finite number.
\<close>

lemma minimax_total:
  assumes "cm \<noteq> ''''" "pm \<noteq> ''''"
  shows "length b = 9 \<Longrightarrow> empties b < n \<Longrightarrow> \<exists>x. minimax n b d m cm pm = Some (Fin x)"
proof (induction n arbitrary: b d m)
  case 0
  then show ?case by simp
next
  case (Suc n)
  show ?case
  proof (cases "checkWinner b cm \<or> checkWinner b pm \<or> isBoardFull b")
    case True
    then show ?thesis by (auto simp: minimax_terminal_cases)
  next
    case False
    then have nt: "\<not> checkWinner b cm" "\<not> checkWinner b pm" "\<not> isBoardFull b" by simp_all
    from not_full_has_empty [OF Suc.prems(1) nt(3)] obtain i where
      i: "i < 9" "cell b i = Some ''''" by blast
    have child: "\<exists>x. minimax n (b[j := mk]) d' m' cm pm = Some (Fin x)"
      if "j < 9" "cell b j = Some ''''" "mk \<noteq> ''''" for j mk d' m'
    proof -
      have "empties (b[j := mk]) < empties b" using that by (rule empties_update)
      with Suc.prems(2) have "empties (b[j := mk]) < n" by simp
      moreover have "length (b[j := mk]) = 9" using Suc.prems(1) by simp
      ultimately show ?thesis using Suc.IH by blast
    qed
    show ?thesis
    proof (cases m)
      case True
      let ?rec = "\<lambda>b'. minimax n b' (d + 1) False cm pm"
      have "\<forall>j<9. cell b j = Some '''' \<longrightarrow> ?rec (b[j := cm]) \<noteq> None"
        using child assms(1) by fastforce
      from scoreStep_fold_max [OF this, of NegInf] obtain v where
        v: "fold (scoreStep b cm ?rec js_max) [0..<9] (Some NegInf) = Some v"
           "v = NegInf \<or> (\<exists>j<9. cell b j = Some '''' \<and> ?rec (b[j := cm]) = Some v)"
           "\<forall>j<9. cell b j = Some '''' \<longrightarrow> (\<exists>w. ?rec (b[j := cm]) = Some w \<and> \<not> js_gt w v)"
        by blast
      from child [OF i assms(1), of "d + 1" False] obtain x where
        x: "?rec (b[i := cm]) = Some (Fin x)" by blast
      with v(3) i have "\<not> js_gt (Fin x) v" by fastforce
      then have "v \<noteq> NegInf" by auto
      with v(2) obtain j where j: "j < 9" "cell b j = Some ''''" "?rec (b[j := cm]) = Some v"
        by blast
      from child [OF j(1,2) assms(1), of "d + 1" False] j(3) obtain y where "v = Fin y" by auto
      with v(1) nt True show ?thesis
        by (simp add: minimax_terminal_cases del: upt_Suc)
    next
      case False
      let ?rec = "\<lambda>b'. minimax n b' (d + 1) True cm pm"
      have "\<forall>j<9. cell b j = Some '''' \<longrightarrow> ?rec (b[j := pm]) \<noteq> None"
        using child assms(2) by fastforce
      from scoreStep_fold_min [OF this, of PosInf] obtain v where
        v: "fold (scoreStep b pm ?rec js_min) [0..<9] (Some PosInf) = Some v"
           "v = PosInf \<or> (\<exists>j<9. cell b j = Some '''' \<and> ?rec (b[j := pm]) = Some v)"
           "\<forall>j<9. cell b j = Some '''' \<longrightarrow> (\<exists>w. ?rec (b[j := pm]) = Some w \<and> \<not> js_gt v w)"
        by blast
      from child [OF i assms(2), of "d + 1" True] obtain x where
        x: "?rec (b[i := pm]) = Some (Fin x)" by blast
      with v(3) i have "\<not> js_gt v (Fin x)" by fastforce
      then have "v \<noteq> PosInf" by auto
      with v(2) obtain j where j: "j < 9" "cell b j = Some ''''" "?rec (b[j := pm]) = Some v"
        by blast
      from child [OF j(1,2) assms(2), of "d + 1" True] j(3) obtain y where "v = Fin y" by auto
      with v(1) nt False show ?thesis
        by (simp add: minimax_terminal_cases del: upt_Suc)
    qed
  qed
qed

text \<open>More fuel than that does not change the score.\<close>

lemma minimax_fuel:
  assumes "cm \<noteq> ''''" "pm \<noteq> ''''"
  shows "empties b < n \<Longrightarrow> empties b < n' \<Longrightarrow>
         minimax n b d m cm pm = minimax n' b d m cm pm"
proof (induction n arbitrary: n' b d m)
  case 0
  then show ?case by simp
next
  case (Suc n)
  from Suc.prems(2) obtain k where n': "n' = Suc k" by (cases n') auto
  have child: "minimax n (b[j := mk]) d' m' cm pm = minimax k (b[j := mk]) d' m' cm pm"
    if "j < 9" "cell b j = Some ''''" "mk \<noteq> ''''" for j mk d' m'
  proof -
    have "empties (b[j := mk]) < empties b" using that by (rule empties_update)
    with Suc.prems n' have "empties (b[j := mk]) < n" "empties (b[j := mk]) < k" by simp_all
    then show ?thesis by (rule Suc.IH)
  qed
  have mx: "fold (scoreStep b cm (\<lambda>b'. minimax n b' (d + 1) False cm pm) js_max)
             [0..<9] (Some NegInf) =
        fold (scoreStep b cm (\<lambda>b'. minimax k b' (d + 1) False cm pm) js_max)
             [0..<9] (Some NegInf)"
    by (rule scoreStep_fold_cong) (simp add: child assms)
  have mn: "fold (scoreStep b pm (\<lambda>b'. minimax n b' (d + 1) True cm pm) js_min)
             [0..<9] (Some PosInf) =
        fold (scoreStep b pm (\<lambda>b'. minimax k b' (d + 1) True cm pm) js_min)
             [0..<9] (Some PosInf)"
    by (rule scoreStep_fold_cong) (simp add: child assms)
  show ?case unfolding n' minimax_terminal_cases using mx mn by simp
qed

subsection \<open>Evaluation on boards of nine cells\<close>

text \<open>
  The functions on a board written out cell by cell. With these equations the simplifier
  runs the search on a concrete board, one call of \<open>minimax\<close> at a time.
\<close>

lemma upt9: "[0..<9] = [0, Suc 0, 2, 3, 4, 5, 6, 7, 8]"
  by (simp add: upt_rec)

lemma cell9:
  "cell [a0, a1, a2, a3, a4, a5, a6, a7, a8] 0 = Some a0"
  "cell [a0, a1, a2, a3, a4, a5, a6, a7, a8] (Suc 0) = Some a1"
  "cell [a0, a1, a2, a3, a4, a5, a6, a7, a8] 2 = Some a2"
  "cell [a0, a1, a2, a3, a4, a5, a6, a7, a8] 3 = Some a3"
  "cell [a0, a1, a2, a3, a4, a5, a6, a7, a8] 4 = Some a4"
  "cell [a0, a1, a2, a3, a4, a5, a6, a7, a8] 5 = Some a5"
  "cell [a0, a1, a2, a3, a4, a5, a6, a7, a8] 6 = Some a6"
  "cell [a0, a1, a2, a3, a4, a5, a6, a7, a8] 7 = Some a7"
  "cell [a0, a1, a2, a3, a4, a5, a6, a7, a8] 8 = Some a8"
  by (simp_all add: cell_def)

lemma upd9:
  "[a0, a1, a2, a3, a4, a5, a6, a7, a8][0 := x] = [x, a1, a2, a3, a4, a5, a6, a7, a8]"
  "[a0, a1, a2, a3, a4, a5, a6, a7, a8][Suc 0 := x] = [a0, x, a2, a3, a4, a5, a6, a7, a8]"
  "[a0, a1, a2, a3, a4, a5, a6, a7, a8][2 := x] = [a0, a1, x, a3, a4, a5, a6, a7, a8]"
  "[a0, a1, a2, a3, a4, a5, a6, a7, a8][3 := x] = [a0, a1, a2, x, a4, a5, a6, a7, a8]"
  "[a0, a1, a2, a3, a4, a5, a6, a7, a8][4 := x] = [a0, a1, a2, a3, x, a5, a6, a7, a8]"
  "[a0, a1, a2, a3, a4, a5, a6, a7, a8][5 := x] = [a0, a1, a2, a3, a4, x, a6, a7, a8]"
  "[a0, a1, a2, a3, a4, a5, a6, a7, a8][6 := x] = [a0, a1, a2, a3, a4, a5, x, a7, a8]"
  "[a0, a1, a2, a3, a4, a5, a6, a7, a8][7 := x] = [a0, a1, a2, a3, a4, a5, a6, x, a8]"
  "[a0, a1, a2, a3, a4, a5, a6, a7, a8][8 := x] = [a0, a1, a2, a3, a4, a5, a6, a7, x]"
  by (simp_all add: numeral_eq_Suc)

lemma win9:
  "checkWinner [a0, a1, a2, a3, a4, a5, a6, a7, a8] mk =
    (if a0 = mk \<and> a1 = mk \<and> a2 = mk then True
     else if a3 = mk \<and> a4 = mk \<and> a5 = mk then True
     else if a6 = mk \<and> a7 = mk \<and> a8 = mk then True
     else if a0 = mk \<and> a3 = mk \<and> a6 = mk then True
     else if a1 = mk \<and> a4 = mk \<and> a7 = mk then True
     else if a2 = mk \<and> a5 = mk \<and> a8 = mk then True
     else if a0 = mk \<and> a4 = mk \<and> a8 = mk then True
     else a2 = mk \<and> a4 = mk \<and> a6 = mk)"
  by (auto simp add: checkWinner_def winConditions_def cell9)

lemma full9:
  "isBoardFull [a0, a1, a2, a3, a4, a5, a6, a7, a8] =
     (a0 \<noteq> [] \<and> a1 \<noteq> [] \<and> a2 \<noteq> [] \<and> a3 \<noteq> [] \<and> a4 \<noteq> [] \<and>
      a5 \<noteq> [] \<and> a6 \<noteq> [] \<and> a7 \<noteq> [] \<and> a8 \<noteq> [])"
  by (simp add: isBoardFull_def)

lemma minimax9:
  "minimax (Suc n) [a0, a1, a2, a3, a4, a5, a6, a7, a8] d m cm pm =
     (if checkWinner [a0, a1, a2, a3, a4, a5, a6, a7, a8] cm then Some (Fin (10 - d))
      else if checkWinner [a0, a1, a2, a3, a4, a5, a6, a7, a8] pm then Some (Fin (- 10 + d))
      else if isBoardFull [a0, a1, a2, a3, a4, a5, a6, a7, a8] then Some (Fin 0)
      else if m then
        fold (scoreStep [a0, a1, a2, a3, a4, a5, a6, a7, a8] cm
                (\<lambda>b'. minimax n b' (d + 1) False cm pm) js_max)
             [0, Suc 0, 2, 3, 4, 5, 6, 7, 8] (Some NegInf)
      else
        fold (scoreStep [a0, a1, a2, a3, a4, a5, a6, a7, a8] pm
                (\<lambda>b'. minimax n b' (d + 1) True cm pm) js_min)
             [0, Suc 0, 2, 3, 4, 5, 6, 7, 8] (Some PosInf))"
  unfolding minimax_terminal_cases upt9 ..

lemma nine: "(9::nat) = Suc (Suc (Suc (Suc (Suc (Suc (Suc (Suc (Suc 0))))))))"
  by simp

lemmas search_eval =
  cell9 upd9 win9 full9 minimax9 scoreStep_def moveStep_def js_max_def js_min_def

text \<open>Nine nested calls are enough for \<open>getBestMove\<close>; more fuel gives the same move.\<close>

lemma getBestMove_fuel:
  assumes "cm \<noteq> ''''" "pm \<noteq> ''''" "9 \<le> n" "9 \<le> n'"
  shows "getBestMove n b cm pm = getBestMove n' b cm pm"
proof -
  have "minimax n (b[j := cm]) 0 False cm pm = minimax n' (b[j := cm]) 0 False cm pm"
    if "j < 9" "cell b j = Some ''''" for j
  proof -
    have "empties (b[j := cm]) < empties b" using that assms(1) by (rule empties_update)
    with empties_le [of b] assms(3,4)
    have "empties (b[j := cm]) < n" "empties (b[j := cm]) < n'" by simp_all
    then show ?thesis by (rule minimax_fuel [OF assms(1,2)])
  qed
  then have "fold (moveStep b cm (\<lambda>b'. minimax n b' 0 False cm pm)) [0..<9] (Some (NegInf, None)) =
             fold (moveStep b cm (\<lambda>b'. minimax n' b' 0 False cm pm)) [0..<9] (Some (NegInf, None))"
    by (intro moveStep_fold_cong) simp
  then show ?thesis by (simp only: getBestMove_def)
qed

subsection \<open>The move that getBestMove returns\<close>

lemma moveScore_total:
  assumes "length b = 9" "cm \<noteq> ''''" "pm \<noteq> ''''" "9 \<le> fuel" "j < 9" "cell b j = Some ''''"
  shows "\<exists>x. moveScore fuel b cm pm j = Some (Fin x)"
proof -
  have "empties (b[j := cm]) < empties b" using assms(5,6,2) by (rule empties_update)
  with empties_le [of b] assms(4) have "empties (b[j := cm]) < fuel" by simp
  moreover have "length (b[j := cm]) = 9" using assms(1) by simp
  ultimately show ?thesis unfolding moveScore_def using minimax_total [OF assms(2,3)] by blast
qed

text \<open>The loop of \<open>getBestMove\<close> keeps the first cell of maximal score.\<close>

lemma getBestMove_maximal:
  assumes "length b = 9" "cm \<noteq> ''''" "pm \<noteq> ''''" "\<exists>i<9. cell b i = Some ''''" "9 \<le> fuel"
  shows "\<exists>k. getBestMove fuel b cm pm = Some (Some k) \<and> k < 9 \<and> cell b k = Some '''' \<and>
     (\<forall>j<9. cell b j = Some '''' \<longrightarrow>
        (\<exists>v w. moveScore fuel b cm pm j = Some (Fin v) \<and>
               moveScore fuel b cm pm k = Some (Fin w) \<and> v \<le> w \<and> (j < k \<longrightarrow> v < w)))"
proof -
  let ?rec = "\<lambda>b'. minimax fuel b' 0 False cm pm"
  have fin: "\<forall>j<9. cell b j = Some '''' \<longrightarrow> (\<exists>x. ?rec (b[j := cm]) = Some (Fin x))"
    using moveScore_total [OF assms(1,2,3,5)] by (simp add: moveScore_def)
  from moveStep_fold_best [OF fin] obtain bs bm where
    f: "fold (moveStep b cm ?rec) [0..<9] (Some (NegInf, None)) = Some (bs, bm)" and
    inv: "case bm of
        None \<Rightarrow> bs = NegInf \<and> (\<forall>j<9. cell b j \<noteq> Some '''')
      | Some m \<Rightarrow> m < 9 \<and> cell b m = Some '''' \<and> ?rec (b[m := cm]) = Some bs \<and>
          (\<forall>j<9. cell b j = Some '''' \<longrightarrow>
             (\<exists>v. ?rec (b[j := cm]) = Some v \<and> \<not> js_gt v bs \<and> (j < m \<longrightarrow> js_gt bs v)))"
    by blast
  from inv assms(4) obtain k where k: "bm = Some k" by (cases bm) auto
  with inv have ik: "k < 9" "cell b k = Some ''''" "?rec (b[k := cm]) = Some bs" and
    best: "\<forall>j<9. cell b j = Some '''' \<longrightarrow>
             (\<exists>v. ?rec (b[j := cm]) = Some v \<and> \<not> js_gt v bs \<and> (j < k \<longrightarrow> js_gt bs v))"
    by simp_all
  from fin ik(1,2) obtain w where "?rec (b[k := cm]) = Some (Fin w)" by blast
  with ik(3) have w: "bs = Fin w" by simp
  have res: "getBestMove fuel b cm pm = Some (Some k)"
    using f k by (simp add: getBestMove_def del: upt_Suc)
  have "\<exists>v w'. moveScore fuel b cm pm j = Some (Fin v) \<and>
               moveScore fuel b cm pm k = Some (Fin w') \<and> v \<le> w' \<and> (j < k \<longrightarrow> v < w')"
    if j: "j < 9" "cell b j = Some ''''" for j
  proof -
    from best j obtain v where v: "?rec (b[j := cm]) = Some v" "\<not> js_gt v bs" "j < k \<longrightarrow> js_gt bs v"
      by blast
    from fin j obtain x where "?rec (b[j := cm]) = Some (Fin x)" by blast
    with v(1) have x: "v = Fin x" by simp
    show ?thesis using v ik(3) unfolding x w moveScore_def by auto
  qed
  with res ik show ?thesis by blast
qed

text \<open>
  C2. On a board of nine cells with a free cell, with markers other than the empty string
  and fuel for nine nested calls, \<open>getBestMove\<close> returns a free cell \<open>k\<close> whose score is
  maximal among the scores of the free cells, each score being the value of \<open>minimax\<close> on
  the board with the computer's marker in that cell, at depth 0, minimizing. Every free cell
  before \<open>k\<close> in the scan 0..8 has a strictly lower score: among the cells of maximal score
  the lowest index is returned.
\<close>

theorem getBestMove_first_maximum:
  assumes "length b = 9" "cm \<noteq> ''''" "pm \<noteq> ''''" "\<exists>i<9. cell b i = Some ''''" "9 \<le> fuel"
  shows "\<exists>k. getBestMove fuel b cm pm = Some (Some k) \<and> k < 9 \<and> cell b k = Some '''' \<and>
     (\<forall>j<9. cell b j = Some '''' \<longrightarrow>
        (\<exists>v w. moveScore fuel b cm pm j = Some (Fin v) \<and>
               moveScore fuel b cm pm k = Some (Fin w) \<and> v \<le> w \<and> (j < k \<longrightarrow> v < w)))"
  using assms by (rule getBestMove_maximal)

theorem getBestMove_first_maximum_witness:
  "length [''X'', ''O'', ''X'', '''', '''', ''O'', '''', ''X'', ''''] = 9 \<and>
   (\<exists>i<9. cell [''X'', ''O'', ''X'', '''', '''', ''O'', '''', ''X'', ''''] i = Some '''') \<and>
   getBestMove 9 [''X'', ''O'', ''X'', '''', '''', ''O'', '''', ''X'', ''''] ''O'' ''X''
     = Some (Some 4) \<and>
   moveScore 9 [''X'', ''O'', ''X'', '''', '''', ''O'', '''', ''X'', ''''] ''O'' ''X'' 3
     = Some (Fin (- 7)) \<and>
   moveScore 9 [''X'', ''O'', ''X'', '''', '''', ''O'', '''', ''X'', ''''] ''O'' ''X'' 4
     = Some (Fin 0) \<and>
   moveScore 9 [''X'', ''O'', ''X'', '''', '''', ''O'', '''', ''X'', ''''] ''O'' ''X'' 6
     = Some (Fin 0)"
proof -
  have free: "\<exists>i<9. cell [''X'', ''O'', ''X'', '''', '''', ''O'', '''', ''X'', ''''] i = Some ''''"
    by (rule exI [of _ 3]) (simp add: cell9)
  have run:
    "getBestMove 9 [''X'', ''O'', ''X'', '''', '''', ''O'', '''', ''X'', ''''] ''O'' ''X''
       = Some (Some 4) \<and>
     moveScore 9 [''X'', ''O'', ''X'', '''', '''', ''O'', '''', ''X'', ''''] ''O'' ''X'' 3
       = Some (Fin (- 7)) \<and>
     moveScore 9 [''X'', ''O'', ''X'', '''', '''', ''O'', '''', ''X'', ''''] ''O'' ''X'' 4
       = Some (Fin 0) \<and>
     moveScore 9 [''X'', ''O'', ''X'', '''', '''', ''O'', '''', ''X'', ''''] ''O'' ''X'' 6
       = Some (Fin 0)"
    unfolding getBestMove_def upt9 moveScore_def unfolding nine
    by (simp add: search_eval split del: if_split)
  from getBestMove_first_maximum
    [of "[''X'', ''O'', ''X'', '''', '''', ''O'', '''', ''X'', '''']" "''O''" "''X''" 9]
    free run
  show ?thesis by simp
qed

subsection \<open>Scores of finished positions\<close>

text \<open>A line of one marker is not affected by another marker written into a free cell.\<close>

lemma checkWinner_update_other:
  assumes "cell b i = Some ''''" "mk \<noteq> other" "other \<noteq> ''''"
  shows "checkWinner (b[i := mk]) other = checkWinner b other"
proof -
  have "cell (b[i := mk]) j = Some other \<longleftrightarrow> cell b j = Some other" for j
    using assms by (auto simp: cell_update)
  then show ?thesis by (simp add: checkWinner_def)
qed

lemma searched_one_winner:
  assumes "searched root cm pm b d m"
    and "\<not> checkWinner root cm" "\<not> checkWinner root pm" "cm \<noteq> pm" "cm \<noteq> ''''" "pm \<noteq> ''''"
  shows "\<not> (checkWinner b cm \<and> checkWinner b pm)"
  using assms
proof (cases rule: searched.cases)
  case (first i)
  with assms show ?thesis by (simp add: checkWinner_update_other)
next
  case (deeper b0 d0 m0 i)
  then have ev: "evaluate b0 cm pm = 0" and free: "cell b0 i = Some ''''" and
    bd: "b = b0[i := (if m0 then cm else pm)]" by simp_all
  from ev have nw: "\<not> checkWinner b0 cm" "\<not> checkWinner b0 pm"
    by (auto simp: evaluate_def split: if_splits)
  show ?thesis
  proof (cases m0)
    case True
    with bd have "checkWinner b pm = checkWinner b0 pm"
      using free assms(4,6) by (simp add: checkWinner_update_other)
    with nw show ?thesis by simp
  next
    case False
    with bd have "checkWinner b cm = checkWinner b0 cm"
      using free assms(4,5) by (simp add: checkWinner_update_other)
    with nw show ?thesis by simp
  qed
qed

text \<open>
  C3. With fuel for the call itself, \<open>minimax\<close> at depth \<open>d\<close> returns \<open>10 - d\<close> when the
  computer's marker holds a line, \<open>- 10 + d\<close> when the opponent's marker holds a line and the
  computer's does not, and 0 on a full board without a line; the two tests for a line come
  before the test for a full board, the computer's first. On every board that the search
  started by \<open>getBestMove\<close> reaches from a root without a line, with two different markers,
  at most one marker holds a line, so there a line of the opponent alone gives \<open>- 10 + d\<close>.
\<close>

theorem minimax_terminal_value:
  "(checkWinner b cm \<longrightarrow> minimax (Suc n) b d m cm pm = Some (Fin (10 - d))) \<and>
   (\<not> checkWinner b cm \<and> checkWinner b pm \<longrightarrow>
      minimax (Suc n) b d m cm pm = Some (Fin (- 10 + d))) \<and>
   (\<not> checkWinner b cm \<and> \<not> checkWinner b pm \<and> isBoardFull b \<longrightarrow>
      minimax (Suc n) b d m cm pm = Some (Fin 0)) \<and>
   (searched root cm pm b d m \<and> \<not> checkWinner root cm \<and> \<not> checkWinner root pm \<and>
    cm \<noteq> pm \<and> cm \<noteq> '''' \<and> pm \<noteq> '''' \<and> checkWinner b pm \<longrightarrow>
      minimax (Suc n) b d m cm pm = Some (Fin (- 10 + d)))"
proof -
  have "\<not> checkWinner b cm"
    if "searched root cm pm b d m" "\<not> checkWinner root cm" "\<not> checkWinner root pm"
       "cm \<noteq> pm" "cm \<noteq> ''''" "pm \<noteq> ''''" "checkWinner b pm"
    using searched_one_winner [OF that(1-6)] that(7) by simp
  then show ?thesis
    by (auto simp: minimax_terminal_cases)
qed

theorem minimax_terminal_value_witness:
  "minimax (Suc 0) [''O'', ''O'', ''O'', ''X'', ''X'', '''', ''X'', '''', ''''] 3 True ''O'' ''X''
     = Some (Fin 7) \<and>
   minimax (Suc 0) [''X'', ''X'', ''X'', ''O'', ''O'', '''', '''', '''', ''''] 1 True ''O'' ''X''
     = Some (Fin (- 9)) \<and>
   minimax (Suc 0) [''X'', ''O'', ''X'', ''X'', ''O'', ''O'', ''O'', ''X'', ''X''] 5 False ''O'' ''X''
     = Some (Fin 0) \<and>
   searched [''X'', ''X'', '''', ''O'', '''', '''', '''', '''', ''''] ''O'' ''X''
     [''X'', ''X'', ''X'', ''O'', ''O'', '''', '''', '''', ''''] 1 True"
proof -
  let ?root = "[''X'', ''X'', '''', ''O'', '''', '''', '''', '''', '''']"
  let ?won = "[''O'', ''O'', ''O'', ''X'', ''X'', '''', ''X'', '''', '''']"
  let ?lost = "[''X'', ''X'', ''X'', ''O'', ''O'', '''', '''', '''', '''']"
  let ?drawn = "[''X'', ''O'', ''X'', ''X'', ''O'', ''O'', ''O'', ''X'', ''X'']"
  have "searched ?root ''O'' ''X'' (?root[4 := ''O'']) 0 False"
    by (rule searched.first) (simp_all add: cell9)
  then have "searched ?root ''O'' ''X''
               ((?root[4 := ''O''])[2 := (if False then ''O'' else ''X'')]) (0 + 1) (\<not> False)"
    by (rule searched.deeper) (simp_all add: evaluate_def upd9 cell9 win9 full9)
  then have s: "searched ?root ''O'' ''X'' ?lost 1 True" by (simp add: upd9)
  have w: "checkWinner ?won ''O''" "\<not> checkWinner ?lost ''O''" "checkWinner ?lost ''X''"
    "\<not> checkWinner ?drawn ''O''" "\<not> checkWinner ?drawn ''X''" "isBoardFull ?drawn"
    "\<not> checkWinner ?root ''O''" "\<not> checkWinner ?root ''X''"
    by (simp_all add: win9 full9)
  from minimax_terminal_value [of ?won "''O''" 0 3 True "''X''" ?root]
    minimax_terminal_value [of ?lost "''O''" 0 1 True "''X''" ?root]
    minimax_terminal_value [of ?drawn "''O''" 0 5 False "''X''" ?root]
    s w
  show ?thesis by simp
qed

subsection \<open>Failure results\<close>

lemma makeMove_accepted:
  assumes "\<not> gameOver s" "getCell index (board s) = Some ''''" "makeMove index s = Returned (r, s')"
  shows "success r"
proof (cases "currentMarker s")
  case None
  with assms show ?thesis by (simp add: makeMove_def)
next
  case (Some mk)
  let ?s1 = "s\<lparr>board := snd (setCell index mk (board s))\<rparr>"
  show ?thesis
  proof (cases "controllerCheckWinner ?s1")
    case None
    with assms Some show ?thesis by (simp add: makeMove_def)
  next
    case won: (Some w)
    show ?thesis
    proof (cases w)
      case True
      with assms Some won show ?thesis by (auto simp: makeMove_def)
    next
      case False
      with assms Some won show ?thesis by (auto simp: makeMove_def Let_def split: if_splits)
    qed
  qed
qed

lemma makeMove_failure:
  assumes "makeMove index s = Returned (r, s')" "\<not> success r"
  shows "s' = s \<and> r = failure (Some (if gameOver s then ''Game is over!''
                                       else ''Cell is already taken!''))"
proof (cases "gameOver s \<or> getCell index (board s) \<noteq> Some ''''")
  case True
  with assms show ?thesis by (auto simp: makeMove_def)
next
  case False
  with makeMove_accepted [of s index r s'] assms show ?thesis by simp
qed

lemma makeComputerMove_idle:
  assumes "isComputerTurn s = Some turn" "\<not> turn \<or> gameOver s"
  shows "makeComputerMove fuel s = Returned (failure None, s)"
  using assms by (simp add: makeComputerMove_def)

lemma makeComputerMove_run:
  assumes "isComputerTurn s = Some True" "\<not> gameOver s" "player1 s = Some p1"
  shows "makeComputerMove fuel s =
    (case getBestMove fuel (board s) (computerMarker s) (marker p1) of
       None \<Rightarrow> OutOfFuel
     | Some None \<Rightarrow> Returned (failure None, s)
     | Some (Some move) \<Rightarrow> makeMove (int move) s)"
  using assms by (simp add: makeComputerMove_def)

lemma makeComputerMove_failure:
  assumes ret: "makeComputerMove fuel s = Returned (r, s')" and ns: "\<not> success r"
  shows "r = failure None \<and> s' = s"
proof (cases "isComputerTurn s")
  case None
  with ret show ?thesis by (simp add: makeComputerMove_def)
next
  case (Some turn)
  show ?thesis
  proof (cases "\<not> turn \<or> gameOver s")
    case True
    from makeComputerMove_idle [OF Some True, of fuel] ret show ?thesis by simp
  next
    case False
    then have go: "\<not> gameOver s" and turn: "isComputerTurn s = Some True" using Some by simp_all
    show ?thesis
    proof (cases "player1 s")
      case None
      with ret turn go show ?thesis by (simp add: makeComputerMove_def)
    next
      case p1: (Some p1)
      note run = makeComputerMove_run [OF turn go p1, of fuel]
      show ?thesis
      proof (cases "getBestMove fuel (board s) (computerMarker s) (marker p1)")
        case None
        with run ret show ?thesis by simp
      next
        case mv: (Some mvo)
        show ?thesis
        proof (cases mvo)
          case None
          with run ret mv show ?thesis by simp
        next
          case (Some k)
          with mv have "k < 9 \<and> cell (board s) k = Some ''''" by (simp add: getBestMove_cell)
          then have gc: "getCell (int k) (board s) = Some ''''" by (simp add: getCell_def)
          from run ret mv Some have "makeMove (int k) s = Returned (r, s')" by simp
          from makeMove_accepted [OF go gc this] ns show ?thesis by simp
        qed
      qed
    qed
  qed
qed

text \<open>
  Called when it is not the computer's turn, \<open>makeComputerMove\<close> returns a failure that
  carries no reason at all: the object has no message.
\<close>

theorem makeComputerMove_reason_counterexample:
  "isComputerTurn (initialize ''Ann'' '''' True initialGame) = Some False \<and>
   resultOf (makeComputerMove 9 (initialize ''Ann'' '''' True initialGame)) = Some (failure None) \<and>
   \<not> success (failure None) \<and>
   message (failure None) \<notin>
     {Some ''game is over'', Some ''cell already taken'', Some ''not computer's turn''}"
  by (simp add: makeComputerMove_def isComputerTurn_def currentMarker_def deref_def
      initialize_def initialGame_def Let_def resultOf_def failure_def)

text \<open>
  C9, as the code has it. A failing \<open>makeMove\<close> leaves the state unchanged and carries the
  message \<open>Game is over!\<close> or \<open>Cell is already taken!\<close>. \<open>makeComputerMove\<close> called when it
  is not the computer's turn returns a failure without a message, and so does every
  failing call of \<open>makeComputerMove\<close>; the state is unchanged.
\<close>

theorem failure_results:
  "(makeMove index s = Returned (r, s') \<and> \<not> success r \<longrightarrow>
      s' = s \<and> r = failure (Some (if gameOver s then ''Game is over!''
                                   else ''Cell is already taken!''))) \<and>
   (isComputerTurn s = Some False \<longrightarrow> makeComputerMove fuel s = Returned (failure None, s)) \<and>
   (makeComputerMove fuel s = Returned (r, s') \<and> \<not> success r \<longrightarrow>
      s' = s \<and> r = failure None) \<and>
   message (failure None) = None \<and> \<not> success (failure None)"
proof -
  have a: "makeMove index s = Returned (r, s') \<and> \<not> success r \<longrightarrow>
      s' = s \<and> r = failure (Some (if gameOver s then ''Game is over!''
                                   else ''Cell is already taken!''))"
    using makeMove_failure [of index s r s'] by blast
  have b: "isComputerTurn s = Some False \<longrightarrow> makeComputerMove fuel s = Returned (failure None, s)"
    using makeComputerMove_idle [of s False fuel] by blast
  have c: "makeComputerMove fuel s = Returned (r, s') \<and> \<not> success r \<longrightarrow> s' = s \<and> r = failure None"
    using makeComputerMove_failure [of fuel s r s'] by blast
  have d: "message (failure None) = None \<and> \<not> success (failure None)"
    by (simp add: failure_def)
  from a b c d show ?thesis by (intro conjI) (elim conjE; assumption)+
qed

theorem failure_results_witness:
  "makeMove 4 (initialGame\<lparr>gameOver := True\<rparr>) =
     Returned (failure (Some ''Game is over!''), initialGame\<lparr>gameOver := True\<rparr>) \<and>
   isComputerTurn (initialize ''Ann'' '''' True initialGame) = Some False \<and>
   makeComputerMove 9 (initialize ''Ann'' '''' True initialGame) =
     Returned (failure None, initialize ''Ann'' '''' True initialGame)"
proof -
  have a: "makeMove 4 (initialGame\<lparr>gameOver := True\<rparr>) =
     Returned (failure (Some ''Game is over!''), initialGame\<lparr>gameOver := True\<rparr>)"
    by (simp add: makeMove_def)
  have b: "isComputerTurn (initialize ''Ann'' '''' True initialGame) = Some False"
    by (simp add: isComputerTurn_def currentMarker_def deref_def initialize_def Let_def)
  from failure_results
    [of 4 "initialGame\<lparr>gameOver := True\<rparr>" "failure (Some ''Game is over!'')"
        "initialGame\<lparr>gameOver := True\<rparr>" 9]
    failure_results
    [of 4 "initialize ''Ann'' '''' True initialGame" "failure None"
        "initialize ''Ann'' '''' True initialGame" 9]
    a b
  show ?thesis by simp
qed

subsection \<open>Blocking a line\<close>

text \<open>
  The two searches, run for any two different markers other than the empty string: the
  opponent \<open>x\<close> holds cells 0 and 1, the computer \<open>c\<close> is to move.
\<close>

lemma block_centre_taken:
  assumes "x \<noteq> []" "c \<noteq> []" "x \<noteq> c"
  shows "getBestMove 9 [x, x, [], [], c, [], [], [], []] c x = Some (Some 2)"
proof -
  have neq: "(x = []) = False" "(c = []) = False" "(x = c) = False"
     "([] = x) = False" "([] = c) = False" "(c = x) = False"
    using assms by auto
  show ?thesis
    unfolding getBestMove_def upt9 unfolding nine
    by (simp add: search_eval neq split del: if_split)
qed

lemma block_centre_free:
  assumes "x \<noteq> []" "c \<noteq> []" "x \<noteq> c"
  shows "getBestMove 9 [x, x, [], [], [], [], [], [], []] c x = Some (Some 2)"
proof -
  have neq: "(x = []) = False" "(c = []) = False" "(x = c) = False"
     "([] = x) = False" "([] = c) = False" "(c = x) = False"
    using assms by auto
  show ?thesis
    unfolding getBestMove_def upt9 unfolding nine
    by (simp add: search_eval neq split del: if_split)
qed

text \<open>
  C5. With \<open>X\<close> on cells 0 and 1, the computer playing \<open>O\<close> against \<open>X\<close>, \<open>getBestMove\<close>
  returns cell 2, both on the board that has \<open>O\<close> in the centre and on the board that has
  no \<open>O\<close> at all.
\<close>

theorem getBestMove_blocks:
  assumes "9 \<le> fuel"
  shows "getBestMove fuel [''X'', ''X'', '''', '''', ''O'', '''', '''', '''', ''''] ''O'' ''X''
           = Some (Some 2) \<and>
         getBestMove fuel [''X'', ''X'', '''', '''', '''', '''', '''', '''', ''''] ''O'' ''X''
           = Some (Some 2)"
proof -
  have "getBestMove fuel b ''O'' ''X'' = getBestMove 9 b ''O'' ''X''" for b
    using assms by (intro getBestMove_fuel) simp_all
  then show ?thesis
    using block_centre_taken [of "''X''" "''O''"] block_centre_free [of "''X''" "''O''"]
    by simp
qed

theorem getBestMove_blocks_witness:
  "getBestMove 9 [''X'', ''X'', '''', '''', ''O'', '''', '''', '''', ''''] ''O'' ''X''
     = Some (Some 2) \<and>
   getBestMove 9 [''X'', ''X'', '''', '''', '''', '''', '''', '''', ''''] ''O'' ''X''
     = Some (Some 2)"
  using getBestMove_blocks [of 9] by simp

subsection \<open>The heuristic selector\<close>

lemma findWinningMoveIn_step:
  assumes "mk \<noteq> ''''"
  shows "findWinningMoveIn ((x, y, z) # rest) b mk =
     (if cell b x = Some '''' \<and> cell b y = Some mk \<and> cell b z = Some mk then Some x
      else if cell b y = Some '''' \<and> cell b x = Some mk \<and> cell b z = Some mk then Some y
      else if cell b z = Some '''' \<and> cell b x = Some mk \<and> cell b y = Some mk then Some z
      else findWinningMoveIn rest b mk)"
  using assms by (auto simp: Let_def)

lemma findWinningMoveIn_sound:
  assumes "mk \<noteq> ''''"
  shows "findWinningMoveIn ts b mk = Some i \<Longrightarrow> \<exists>t\<in>set ts. lineMove b mk i t"
proof (induction ts)
  case Nil
  then show ?case by simp
next
  case (Cons t ts)
  obtain x y z where t: "t = (x, y, z)" by (cases t) auto
  from Cons show ?case
    unfolding t findWinningMoveIn_step [OF assms]
    by (auto simp: lineMove_def split: if_splits)
qed

lemma findWinningMoveIn_complete:
  assumes "mk \<noteq> ''''"
  shows "\<exists>t\<in>set ts. lineMove b mk i t \<Longrightarrow> findWinningMoveIn ts b mk \<noteq> None"
proof (induction ts)
  case Nil
  then show ?case by simp
next
  case (Cons t ts)
  obtain x y z where t: "t = (x, y, z)" by (cases t) auto
  from Cons show ?case
    unfolding t findWinningMoveIn_step [OF assms]
    by (auto simp: lineMove_def split: if_splits)
qed

lemma completes_lineMove: "completes b mk i \<longleftrightarrow> (\<exists>t\<in>set winTriples. lineMove b mk i t)"
  by (simp add: completes_def list_ex_iff)

lemma findWinningMove_Some:
  "mk \<noteq> '''' \<Longrightarrow> findWinningMove b mk = Some i \<Longrightarrow> completes b mk i"
  unfolding findWinningMove_def completes_lineMove by (rule findWinningMoveIn_sound)

lemma findWinningMove_None:
  "mk \<noteq> '''' \<Longrightarrow> findWinningMove b mk = None \<Longrightarrow> \<not> completes b mk i"
  unfolding findWinningMove_def completes_lineMove
  using findWinningMoveIn_complete by blast

lemma pick_available:
  assumes "\<forall>n>0. rnd n < n" "filter P xs \<noteq> []"
  shows "\<exists>i\<in>set xs. at_index (filter P xs) (rnd (length (filter P xs))) = Some i \<and> P i"
proof -
  let ?ys = "filter P xs"
  from assms have k: "rnd (length ?ys) < length ?ys" by simp
  then have "?ys ! rnd (length ?ys) \<in> set ?ys" by (rule nth_mem)
  then show ?thesis using k by (auto simp: at_index_def)
qed

lemma isFull_cells:
  assumes "length b = 9"
  shows "isFull b \<longleftrightarrow> (\<forall>i<9. cell b i \<noteq> Some '''')"
  using assms by (auto simp: isFull_def list_all_length cell_def)

text \<open>
  C4. On a board of nine cells, with markers other than the empty string and a random
  source that draws below its bound, the heuristic \<open>getBestMove\<close> returns: a free cell that
  completes a line of the computer's marker when there is one; else a free cell that
  completes a line of the opponent's marker when there is one; else cell 4 when it is free;
  else a free corner when there is one; else a free edge when there is one. It returns
  \<^verbatim>\<open>null\<close> exactly when the board is full.
\<close>

theorem heuristic_priority:
  assumes len: "length b = 9" and cm: "cm \<noteq> ''''" and pm: "pm \<noteq> ''''"
    and rnd: "\<forall>n>0. rnd n < n"
    and r: "r = getBestMoveHeuristic rnd b cm pm"
  shows "((\<exists>i. completes b cm i) \<longrightarrow> (\<exists>i. r = Some i \<and> completes b cm i)) \<and>
    (\<not> (\<exists>i. completes b cm i) \<and> (\<exists>i. completes b pm i) \<longrightarrow>
       (\<exists>i. r = Some i \<and> completes b pm i)) \<and>
    (\<not> (\<exists>i. completes b cm i) \<and> \<not> (\<exists>i. completes b pm i) \<and> cell b 4 = Some '''' \<longrightarrow>
       r = Some 4) \<and>
    (\<not> (\<exists>i. completes b cm i) \<and> \<not> (\<exists>i. completes b pm i) \<and> cell b 4 \<noteq> Some '''' \<and>
     (\<exists>i\<in>{0, 2, 6, 8}. cell b i = Some '''') \<longrightarrow>
       (\<exists>i\<in>{0, 2, 6, 8}. r = Some i \<and> cell b i = Some '''')) \<and>
    (\<not> (\<exists>i. completes b cm i) \<and> \<not> (\<exists>i. completes b pm i) \<and> cell b 4 \<noteq> Some '''' \<and>
     \<not> (\<exists>i\<in>{0, 2, 6, 8}. cell b i = Some '''') \<and>
     (\<exists>i\<in>{1, 3, 5, 7}. cell b i = Some '''') \<longrightarrow>
       (\<exists>i\<in>{1, 3, 5, 7}. r = Some i \<and> cell b i = Some '''')) \<and>
    (r = None \<longleftrightarrow> isFull b)"
proof -
  let ?free = "\<lambda>i. cell b i = Some ''''"
  let ?corners = "filter ?free [0, 2, 6, 8]"
  let ?edges = "filter ?free [1, 3, 5, 7]"
  have full: "isFull b \<longleftrightarrow> (\<forall>i<9. \<not> ?free i)" using len by (rule isFull_cells)
  have nine: "(\<forall>i<9. \<not> ?free i) \<longleftrightarrow>
      \<not> ?free 4 \<and> \<not> (\<exists>i\<in>{0, 2, 6, 8}. ?free i) \<and> \<not> (\<exists>i\<in>{1, 3, 5, 7}. ?free i)"
  proof -
    have "{i. i < (9::nat)} = {4} \<union> {0, 2, 6, 8} \<union> {1, 3, 5, 7}" by auto
    then have "(\<forall>i<9. \<not> ?free i) \<longleftrightarrow> (\<forall>i\<in>{4} \<union> {0, 2, 6, 8} \<union> {1, 3, 5, 7}. \<not> ?free i)"
      by (metis mem_Collect_eq)
    then show ?thesis by blast
  qed
  have nocompl: "\<not> completes b mk i" if "isFull b" for mk i
  proof -
    from that full have "\<not> ?free j" if "j < 9" for j using that by simp
    moreover have "\<forall>t\<in>set winTriples. case t of (x, y, z) \<Rightarrow> x < 9 \<and> y < 9 \<and> z < 9"
      by (simp add: winTriples_def)
    ultimately show ?thesis
      unfolding completes_lineMove lineMove_def by fastforce
  qed
  show ?thesis
  proof (cases "findWinningMove b cm")
    case (Some i)
    then have c: "completes b cm i" using cm by (simp add: findWinningMove_Some)
    have "r = Some i" using r Some by (simp add: getBestMoveHeuristic_def)
    with c nocompl show ?thesis by auto
  next
    case n1: None
    then have nc: "\<not> (\<exists>i. completes b cm i)" using cm findWinningMove_None by blast
    show ?thesis
    proof (cases "findWinningMove b pm")
      case (Some i)
      then have c: "completes b pm i" using pm by (simp add: findWinningMove_Some)
      have "r = Some i" using r n1 Some by (simp add: getBestMoveHeuristic_def)
      with c nc nocompl show ?thesis by auto
    next
      case n2: None
      then have np: "\<not> (\<exists>i. completes b pm i)" using pm findWinningMove_None by blast
      show ?thesis
      proof (cases "?free 4")
        case True
        have "r = Some 4" using r n1 n2 True by (simp add: getBestMoveHeuristic_def)
        with nc np True full show ?thesis by auto
      next
        case centre: False
        show ?thesis
        proof (cases "?corners = []")
          case False
          from pick_available [OF rnd False] obtain i where
            i: "i \<in> set [0, 2, 6, 8]" "at_index ?corners (rnd (length ?corners)) = Some i" "?free i"
            by blast
          have "r = Some i" using r n1 n2 centre False i(2)
            by (simp add: getBestMoveHeuristic_def Let_def)
          with nc np centre i(1,3) full nine show ?thesis by auto
        next
          case nocorner: True
          then have "\<forall>i\<in>set [0, 2, 6, 8]. \<not> ?free i"
            by (simp only: filter_empty_conv)
          then have ncr: "\<not> (\<exists>i\<in>{0, 2, 6, 8}. ?free i)" by simp
          show ?thesis
          proof (cases "?edges = []")
            case False
            from pick_available [OF rnd False] obtain i where
              i: "i \<in> set [1, 3, 5, 7]" "at_index ?edges (rnd (length ?edges)) = Some i" "?free i"
              by blast
            have "r = Some i" using r n1 n2 centre nocorner False i(2)
              by (simp add: getBestMoveHeuristic_def Let_def)
            with nc np centre ncr i(1,3) full nine show ?thesis by auto
          next
            case True
            then have "\<forall>i\<in>set [1, 3, 5, 7]. \<not> ?free i"
              by (simp only: filter_empty_conv)
            then have ned: "\<not> (\<exists>i\<in>{1, 3, 5, 7}. ?free i)" by simp
            have "r = None" using r n1 n2 centre nocorner True
              by (simp add: getBestMoveHeuristic_def Let_def)
            with nc np centre ncr ned full nine show ?thesis by auto
          qed
        qed
      qed
    qed
  qed
qed

theorem heuristic_priority_witness:
  "getBestMoveHeuristic (\<lambda>n. 0) [''O'', ''O'', '''', ''X'', ''X'', '''', '''', '''', ''''] ''O'' ''X''
     = Some 2 \<and>
   completes [''O'', ''O'', '''', ''X'', ''X'', '''', '''', '''', ''''] ''O'' 2 \<and>
   getBestMoveHeuristic (\<lambda>n. 0) [''X'', '''', '''', '''', ''O'', '''', '''', '''', ''''] ''O'' ''X''
     = Some 2 \<and>
   \<not> isFull [''X'', '''', '''', '''', ''O'', '''', '''', '''', '''']"
proof -
  let ?b1 = "[''O'', ''O'', '''', ''X'', ''X'', '''', '''', '''', '''']"
  let ?b2 = "[''X'', '''', '''', '''', ''O'', '''', '''', '''', '''']"
  have rnd: "\<forall>n>0. (\<lambda>n. 0::nat) n < n" by simp
  have c: "completes ?b1 ''O'' 2"
    by (simp add: completes_def lineMove_def winTriples_def cell9)
  have f: "\<not> isFull ?b2" by (simp add: isFull_def)
  from heuristic_priority [of ?b1 "''O''" "''X''" "\<lambda>n. 0" "getBestMoveHeuristic (\<lambda>n. 0) ?b1 ''O'' ''X''"]
    heuristic_priority [of ?b2 "''O''" "''X''" "\<lambda>n. 0" "getBestMoveHeuristic (\<lambda>n. 0) ?b2 ''O'' ''X''"]
    rnd c f
  show ?thesis
    by (simp add: getBestMoveHeuristic_def findWinningMove_def winTriples_def cell9
        at_index_def Let_def)
qed

subsection \<open>The minimax selector never loses\<close>

lemma empties_update_eq:
  assumes "i < 9" "cell b i = Some ''''" "mk \<noteq> ''''"
  shows "Suc (empties (b[i := mk])) = empties b"
proof -
  have il: "i < length b" using assms(2) by (simp add: cell_def split: if_splits)
  have "{j. j < 9 \<and> cell b j = Some ''''} = insert i {j. j < 9 \<and> cell (b[i := mk]) j = Some ''''}"
    using assms by (auto simp: cell_update split: if_splits)
  moreover have "i \<notin> {j. j < 9 \<and> cell (b[i := mk]) j = Some ''''}"
    using assms(3) il by (simp add: cell_update)
  moreover have "finite {j. j < 9 \<and> cell (b[i := mk]) j = Some ''''}" by simp
  ultimately show ?thesis unfolding empties_card by simp
qed

lemma set_scanOrder: "i \<in> set scanOrder \<longleftrightarrow> i < 9"
proof -
  have "set scanOrder = {0, 1, 2, 3, 4, 5, 6, 7, 8}" by (auto simp: scanOrder_def)
  also have "\<dots> = {i. i < 9}" by auto
  finally show ?thesis by simp
qed

lemma secure_step:
  "secure (Suc n) b m cm pm =
     (if checkWinner b cm then True
      else if checkWinner b pm then False
      else if isBoardFull b then True
      else if m then (\<exists>i<9. cell b i = Some '''' \<and> secure n (b[i := cm]) False cm pm)
      else (\<forall>i<9. cell b i = Some '''' \<longrightarrow> secure n (b[i := pm]) True cm pm))"
  by (simp add: list_ex_iff list_all_iff set_scanOrder Bex_def Ball_def)

declare secure.simps(2) [simp del]

text \<open>The sign of the score says whether the computer is secure.\<close>

lemma minimax_sign_terminal:
  assumes "checkWinner b cm \<or> checkWinner b pm \<or> isBoardFull b" "d < 10"
    "minimax (Suc n) b d m cm pm = Some (Fin v)"
  shows "0 \<le> v \<longleftrightarrow> secure (Suc k) b m cm pm"
proof (cases "checkWinner b cm")
  case True
  with assms(3) have "v = 10 - d" by (simp add: minimax_terminal_cases)
  with assms(2) True show ?thesis by (simp add: secure_step)
next
  case ncm: False
  show ?thesis
  proof (cases "checkWinner b pm")
    case True
    with ncm assms(3) have "v = - 10 + d" by (simp add: minimax_terminal_cases)
    with assms(2) ncm True show ?thesis by (simp add: secure_step)
  next
    case False
    with ncm assms(1) have f: "isBoardFull b" by simp
    with ncm False assms(3) have "v = 0" by (simp add: minimax_terminal_cases)
    with ncm False f show ?thesis by (simp add: secure_step)
  qed
qed

lemma minimax_sign:
  assumes cm: "cm \<noteq> ''''" and pm: "pm \<noteq> ''''"
  shows "empties b = n \<Longrightarrow> length b = 9 \<Longrightarrow> d + int n < 10 \<Longrightarrow>
         minimax (Suc n) b d m cm pm = Some (Fin v) \<Longrightarrow>
         (0 \<le> v \<longleftrightarrow> secure (Suc n) b m cm pm)"
proof (induction n arbitrary: b d m v)
  case 0
  show ?case
  proof (cases "checkWinner b cm \<or> checkWinner b pm \<or> isBoardFull b")
    case True
    from "0.prems"(3) have "d < 10" by simp
    from minimax_sign_terminal [OF True this "0.prems"(4)] show ?thesis .
  next
    case False
    with not_full_has_empty [OF "0.prems"(2)] obtain i where "i < 9" "cell b i = Some ''''"
      by blast
    then have "i \<in> {j. j < 9 \<and> cell b j = Some ''''}" by simp
    moreover from "0.prems"(1) have "{j. j < 9 \<and> cell b j = Some ''''} = {}"
      by (simp add: empties_card)
    ultimately show ?thesis by simp
  qed
next
  case (Suc n)
  show ?case
  proof (cases "checkWinner b cm \<or> checkWinner b pm \<or> isBoardFull b")
    case True
    from Suc.prems(3) have "d < 10" by simp
    from minimax_sign_terminal [OF True this Suc.prems(4)] show ?thesis .
  next
    case False
    then have nt: "\<not> checkWinner b cm" "\<not> checkWinner b pm" "\<not> isBoardFull b" by simp_all
    have child: "\<exists>w. minimax (Suc n) (b[j := mk]) (d + 1) m' cm pm = Some (Fin w) \<and>
                  (0 \<le> w \<longleftrightarrow> secure (Suc n) (b[j := mk]) m' cm pm)"
      if "j < 9" "cell b j = Some ''''" "mk \<noteq> ''''" for j mk m'
    proof -
      have e: "empties (b[j := mk]) = n"
        using empties_update_eq [OF that] Suc.prems(1) by simp
      have l: "length (b[j := mk]) = 9" using Suc.prems(2) by simp
      from minimax_total [OF cm pm l, of "Suc n" "d + 1" m'] e obtain w where
        w: "minimax (Suc n) (b[j := mk]) (d + 1) m' cm pm = Some (Fin w)" by auto
      have "d + 1 + int n < 10" using Suc.prems(3) by simp
      from Suc.IH [OF e l this w] w show ?thesis by blast
    qed
    show ?thesis
    proof (cases m)
      case True
      let ?rec = "\<lambda>b'. minimax (Suc n) b' (d + 1) False cm pm"
      have "\<forall>j<9. cell b j = Some '''' \<longrightarrow> ?rec (b[j := cm]) \<noteq> None"
      proof (intro allI impI)
        fix j assume "j < 9" "cell b j = Some ''''"
        from child [OF this cm, of False] show "?rec (b[j := cm]) \<noteq> None" by auto
      qed
      from scoreStep_fold_max [OF this, of NegInf] obtain v' where
        v: "fold (scoreStep b cm ?rec js_max) [0..<9] (Some NegInf) = Some v'"
           "v' = NegInf \<or> (\<exists>j<9. cell b j = Some '''' \<and> ?rec (b[j := cm]) = Some v')"
           "\<forall>j<9. cell b j = Some '''' \<longrightarrow> (\<exists>w. ?rec (b[j := cm]) = Some w \<and> \<not> js_gt w v')"
        by blast
      from Suc.prems(4) nt True v(1) have vv: "v' = Fin v"
        by (simp add: minimax_terminal_cases del: upt_Suc)
      have sec: "secure (Suc (Suc n)) b m cm pm \<longleftrightarrow>
                 (\<exists>i<9. cell b i = Some '''' \<and> secure (Suc n) (b[i := cm]) False cm pm)"
        using nt True by (simp add: secure_step)
      show ?thesis
      proof
        assume pos: "0 \<le> v"
        from v(2) vv have "\<exists>j<9. cell b j = Some '''' \<and> ?rec (b[j := cm]) = Some (Fin v)"
          by simp
        then obtain j where j: "j < 9" "cell b j = Some ''''" "?rec (b[j := cm]) = Some (Fin v)"
          by blast
        from child [OF j(1,2) cm, of False] j(3) pos
        have "secure (Suc n) (b[j := cm]) False cm pm" by simp
        with j sec show "secure (Suc (Suc n)) b m cm pm" by blast
      next
        assume "secure (Suc (Suc n)) b m cm pm"
        with sec obtain j where j: "j < 9" "cell b j = Some ''''"
          "secure (Suc n) (b[j := cm]) False cm pm" by blast
        from child [OF j(1,2) cm, of False] j(3) obtain w where
          w: "?rec (b[j := cm]) = Some (Fin w)" "0 \<le> w" by blast
        from v(3) j(1,2) obtain w' where "?rec (b[j := cm]) = Some w'" "\<not> js_gt w' v'" by blast
        with w(1) vv have "\<not> js_gt (Fin w) (Fin v)" by simp
        with w(2) show "0 \<le> v" by simp
      qed
    next
      case False
      let ?rec = "\<lambda>b'. minimax (Suc n) b' (d + 1) True cm pm"
      have "\<forall>j<9. cell b j = Some '''' \<longrightarrow> ?rec (b[j := pm]) \<noteq> None"
      proof (intro allI impI)
        fix j assume "j < 9" "cell b j = Some ''''"
        from child [OF this pm, of True] show "?rec (b[j := pm]) \<noteq> None" by auto
      qed
      from scoreStep_fold_min [OF this, of PosInf] obtain v' where
        v: "fold (scoreStep b pm ?rec js_min) [0..<9] (Some PosInf) = Some v'"
           "v' = PosInf \<or> (\<exists>j<9. cell b j = Some '''' \<and> ?rec (b[j := pm]) = Some v')"
           "\<forall>j<9. cell b j = Some '''' \<longrightarrow> (\<exists>w. ?rec (b[j := pm]) = Some w \<and> \<not> js_gt v' w)"
        by blast
      from Suc.prems(4) nt False v(1) have vv: "v' = Fin v"
        by (simp add: minimax_terminal_cases del: upt_Suc)
      have sec: "secure (Suc (Suc n)) b m cm pm \<longleftrightarrow>
                 (\<forall>i<9. cell b i = Some '''' \<longrightarrow> secure (Suc n) (b[i := pm]) True cm pm)"
        using nt False by (simp add: secure_step)
      show ?thesis
      proof
        assume pos: "0 \<le> v"
        have "secure (Suc n) (b[j := pm]) True cm pm" if j: "j < 9" "cell b j = Some ''''" for j
        proof -
          from child [OF j pm, of True] obtain w where
            w: "?rec (b[j := pm]) = Some (Fin w)" "0 \<le> w \<longleftrightarrow> secure (Suc n) (b[j := pm]) True cm pm"
            by blast
          from v(3) j obtain w' where "?rec (b[j := pm]) = Some w'" "\<not> js_gt v' w'" by blast
          with w(1) vv have "\<not> js_gt (Fin v) (Fin w)" by simp
          with pos w(2) show ?thesis by simp
        qed
        with sec show "secure (Suc (Suc n)) b m cm pm" by blast
      next
        assume s: "secure (Suc (Suc n)) b m cm pm"
        from v(2) vv have "\<exists>j<9. cell b j = Some '''' \<and> ?rec (b[j := pm]) = Some (Fin v)"
          by simp
        then obtain j where j: "j < 9" "cell b j = Some ''''" "?rec (b[j := pm]) = Some (Fin v)"
          by blast
        from s sec j have "secure (Suc n) (b[j := pm]) True cm pm" by blast
        with child [OF j(1,2) pm, of True] j(3) show "0 \<le> v" by simp
      qed
    qed
  qed
qed

text \<open>What a move accepted by \<open>makeMove\<close> does to the state.\<close>

lemma isFull_isBoardFull: "isFull b = isBoardFull b"
  by (simp add: isFull_def isBoardFull_def)

lemma makeMove_effect:
  assumes go: "\<not> gameOver s" and free: "getCell index (board s) = Some ''''"
    and mk: "currentMarker s = Some mk"
  shows "\<exists>r. success r \<and> makeMove index s = Returned (r,
     (if checkWinner ((board s)[nat index := mk]) mk
      then s\<lparr>board := (board s)[nat index := mk], gameOver := True, winner := currentPlayer s\<rparr>
      else if isFull ((board s)[nat index := mk])
      then s\<lparr>board := (board s)[nat index := mk], gameOver := True\<rparr>
      else switchPlayer (s\<lparr>board := (board s)[nat index := mk]\<rparr>)))"
proof -
  from free have rng: "0 \<le> index" "index < 9" "cell (board s) (nat index) = Some ''''"
    by (auto simp: getCell_def split: if_splits)
  then have sc: "snd (setCell index mk (board s)) = (board s)[nat index := mk]"
    by (simp add: setCell_def)
  let ?s1 = "s\<lparr>board := (board s)[nat index := mk]\<rparr>"
  have cm1: "currentMarker ?s1 = Some mk"
    using mk by (simp add: currentMarker_def deref_def split: option.splits player_ref.splits)
  then have cw: "controllerCheckWinner ?s1 = Some (checkWinner ((board s)[nat index := mk]) mk)"
    by (simp add: controllerCheckWinner_def)
  show ?thesis
  proof (cases "checkWinner ((board s)[nat index := mk]) mk")
    case True
    with go free mk sc cw show ?thesis by (simp add: makeMove_def)
  next
    case False
    with go free mk sc cw show ?thesis by (simp add: makeMove_def)
  qed
qed

lemma len9_cases:
  assumes "length b = 9"
  obtains a0 a1 a2 a3 a4 a5 a6 a7 a8 where "b = [a0, a1, a2, a3, a4, a5, a6, a7, a8]"
proof -
  from assms have "\<exists>a0 a1 a2 a3 a4 a5 a6 a7 a8. b = [a0, a1, a2, a3, a4, a5, a6, a7, a8]"
    by (simp add: numeral_eq_Suc length_Suc_conv) blast
  with that show ?thesis by blast
qed

lemma reset_nine: "length b = 9 \<Longrightarrow> reset b = emptyBoard"
  by (erule len9_cases) (simp add: reset_def assign_def emptyBoard_def upt_rec)

lemma empties_emptyBoard: "empties emptyBoard = 9"
  by (simp add: empties_def emptyBoard_def cell9 upt9 del: upt_Suc)

text \<open>The invariant of a game against the computer, move by move.\<close>

lemma gameInv_turn:
  assumes "gameInv s"
  shows "isComputerTurn s = Some (currentPlayer s = Some Player2)"
    and "currentMarker s = Some (if currentPlayer s = Some Player2 then ''O'' else ''X'')"
proof -
  from assms obtain p1 p2 where p: "player1 s = Some p1" "marker p1 = ''X''"
      "player2 s = Some p2" "marker p2 = ''O''" and
    v: "vsComputer s" "computerMarker s = ''O''" and
    c: "currentPlayer s = Some Player1 \<or> currentPlayer s = Some Player2"
    by (auto simp: gameInv_def)
  from c p show "currentMarker s = Some (if currentPlayer s = Some Player2 then ''O'' else ''X'')"
    by (auto simp: currentMarker_def deref_def)
  with v show "isComputerTurn s = Some (currentPlayer s = Some Player2)"
    by (auto simp: isComputerTurn_def)
qed

lemma gameInv_switch:
  assumes "gameInv s"
  shows "currentPlayer (switchPlayer (s\<lparr>board := b'\<rparr>)) =
         Some (if currentPlayer s = Some Player2 then Player1 else Player2)"
  using assms by (auto simp: gameInv_def switchPlayer_def ref1_def ref2_def)

text \<open>The state after a move of the marker \<open>mk\<close> into the free cell \<open>i\<close>.\<close>

lemma gameInv_after_move:
  assumes inv: "gameInv s" and go: "\<not> gameOver s"
    and i: "i < 9" "cell (board s) i = Some ''''"
    and mk: "mk = (if currentPlayer s = Some Player2 then ''O'' else ''X'')"
    and sec: "secure (Suc (empties ((board s)[i := mk]))) ((board s)[i := mk])
                (currentPlayer s \<noteq> Some Player2) ''O'' ''X''"
    and s': "s' = (if checkWinner ((board s)[i := mk]) mk
      then s\<lparr>board := (board s)[i := mk], gameOver := True, winner := currentPlayer s\<rparr>
      else if isFull ((board s)[i := mk])
      then s\<lparr>board := (board s)[i := mk], gameOver := True\<rparr>
      else switchPlayer (s\<lparr>board := (board s)[i := mk]\<rparr>))"
  shows "gameInv s'"
proof -
  let ?b = "board s" and ?b' = "(board s)[i := mk]"
  from inv go have base: "length ?b = 9" "\<not> checkWinner ?b ''X''" "\<not> checkWinner ?b ''O''"
    "winner s = None"
    by (simp_all add: gameInv_def)
  have len: "length ?b' = 9" using base(1) by simp
  have nx: "\<not> checkWinner ?b' ''X''"
  proof (cases "currentPlayer s = Some Player2")
    case True
    with mk have "mk = ''O''" by simp
    then have "checkWinner ?b' ''X'' = checkWinner ?b ''X''"
      using i(2) by (simp add: checkWinner_update_other)
    with base(2) show ?thesis by simp
  next
    case False
    with mk have m: "mk = ''X''" by simp
    then have "checkWinner ?b' ''O'' = checkWinner ?b ''O''"
      using i(2) by (simp add: checkWinner_update_other)
    with base(3) have "\<not> checkWinner ?b' ''O''" by simp
    with sec False show ?thesis by (auto simp: secure_step split: if_splits)
  qed
  have rest: "map_option marker (player1 s) = Some ''X''"
    "map_option marker (player2 s) = Some ''O''" "vsComputer s" "computerMarker s = ''O''"
    "currentPlayer s = Some Player1 \<or> currentPlayer s = Some Player2"
    using inv by (simp_all add: gameInv_def)
  show ?thesis
  proof (cases "checkWinner ?b' mk")
    case True
    with nx mk have c2: "currentPlayer s = Some Player2" "mk = ''O''" by (auto split: if_splits)
    from True s' have "s' = s\<lparr>board := ?b', gameOver := True, winner := currentPlayer s\<rparr>"
      by simp
    with len nx rest c2 True show ?thesis by (simp add: gameInv_def)
  next
    case nw: False
    show ?thesis
    proof (cases "isFull ?b'")
      case True
      with nw s' have "s' = s\<lparr>board := ?b', gameOver := True\<rparr>" by simp
      with len nx rest base(4) True show ?thesis by (simp add: gameInv_def)
    next
      case False
      with nw s' have e: "s' = switchPlayer (s\<lparr>board := ?b'\<rparr>)" by simp
      have cur: "currentPlayer s' = Some (if currentPlayer s = Some Player2 then Player1 else Player2)"
        unfolding e using inv by (rule gameInv_switch)
      have no: "\<not> checkWinner ?b' ''O''"
      proof (cases "currentPlayer s = Some Player2")
        case True
        with mk nw show ?thesis by simp
      next
        case False
        with mk have "mk = ''X''" by simp
        then have "checkWinner ?b' ''O'' = checkWinner ?b ''O''"
          using i(2) by (simp add: checkWinner_update_other)
        with base(3) show ?thesis by simp
      qed
      have flds: "board s' = ?b'" "player1 s' = player1 s" "player2 s' = player2 s"
        "vsComputer s' = vsComputer s" "computerMarker s' = computerMarker s"
        "gameOver s' = gameOver s" "winner s' = winner s"
        unfolding e by (simp_all add: switchPlayer_def)
      have flag: "(currentPlayer s' = Some Player2) = (currentPlayer s \<noteq> Some Player2)"
        using cur by auto
      show ?thesis
        unfolding gameInv_def flds flag
        using len nx rest base(4) go no False sec cur by auto
    qed
  qed
qed

lemma secure_children:
  assumes "secure (Suc (empties b)) b m cm pm"
    "\<not> checkWinner b cm" "\<not> checkWinner b pm" "\<not> isBoardFull b"
  shows "m \<Longrightarrow> \<exists>j<9. cell b j = Some '''' \<and> secure (empties b) (b[j := cm]) False cm pm"
    and "\<not> m \<Longrightarrow> \<forall>j<9. cell b j = Some '''' \<longrightarrow> secure (empties b) (b[j := pm]) True cm pm"
  using assms by (simp_all add: secure_step)

lemma makeMove_unchanged:
  assumes "gameOver s \<or> getCell index (board s) \<noteq> Some ''''"
    and "makeMove index s = Returned (r, s')"
  shows "s' = s"
  using assms by (auto simp: makeMove_def split: if_splits)

lemma human_step:
  assumes inv: "gameInv s" and turn: "isComputerTurn s = Some False"
    and mv: "makeMove index s = Returned (r, s')"
  shows "gameInv s'"
proof (cases "gameOver s \<or> getCell index (board s) \<noteq> Some ''''")
  case True
  from makeMove_unchanged [OF True mv] have "s' = s" .
  with inv show ?thesis by simp
next
  case False
  then have go: "\<not> gameOver s" and free: "getCell index (board s) = Some ''''" by simp_all
  from gameInv_turn [OF inv] turn have cur: "currentPlayer s \<noteq> Some Player2"
    and mk: "currentMarker s = Some ''X''" by auto
  let ?i = "nat index"
  from free have i: "?i < 9" "cell (board s) ?i = Some ''''"
    by (auto simp: getCell_def split: if_splits)
  from makeMove_effect [OF go free mk] mv
  have s': "s' = (if checkWinner ((board s)[?i := ''X'']) ''X''
      then s\<lparr>board := (board s)[?i := ''X''], gameOver := True, winner := currentPlayer s\<rparr>
      else if isFull ((board s)[?i := ''X''])
      then s\<lparr>board := (board s)[?i := ''X''], gameOver := True\<rparr>
      else switchPlayer (s\<lparr>board := (board s)[?i := ''X'']\<rparr>))"
    by auto
  from inv go cur have nt: "\<not> checkWinner (board s) ''O''" "\<not> checkWinner (board s) ''X''"
    "\<not> isBoardFull (board s)" and
    sec: "secure (Suc (empties (board s))) (board s) False ''O'' ''X''"
    by (simp_all add: gameInv_def isFull_isBoardFull)
  from secure_children(2) [OF sec nt] i
  have "secure (empties (board s)) ((board s)[?i := ''X'']) True ''O'' ''X''" by simp
  moreover have "Suc (empties ((board s)[?i := ''X''])) = empties (board s)"
    using i by (intro empties_update_eq) simp_all
  ultimately have sec': "secure (Suc (empties ((board s)[?i := ''X''])))
      ((board s)[?i := ''X'']) (currentPlayer s \<noteq> Some Player2) ''O'' ''X''"
    using cur by simp
  show ?thesis
    by (rule gameInv_after_move [OF inv go i _ sec' s']) (simp add: cur)
qed

lemma computer_move:
  assumes inv: "gameInv s" and go: "\<not> gameOver s" and turn: "isComputerTurn s = Some True"
    and fuel: "9 \<le> fuel"
  shows "\<exists>r s'. makeComputerMove fuel s = Returned (r, s') \<and> success r \<and> gameInv s'"
proof -
  let ?b = "board s"
  from gameInv_turn [OF inv] turn have cur: "currentPlayer s = Some Player2"
    and mk: "currentMarker s = Some ''O''" by auto
  from inv go cur have len: "length ?b = 9" and
    nt: "\<not> checkWinner ?b ''O''" "\<not> checkWinner ?b ''X''" "\<not> isBoardFull ?b" and
    sec: "secure (Suc (empties ?b)) ?b True ''O'' ''X''" and cmk: "computerMarker s = ''O''"
    by (simp_all add: gameInv_def isFull_isBoardFull)
  from inv obtain p1 where p1: "player1 s = Some p1" "marker p1 = ''X''"
    by (auto simp: gameInv_def)
  from not_full_has_empty [OF len nt(3)] have ex: "\<exists>i<9. cell ?b i = Some ''''" .
  from getBestMove_maximal [OF len _ _ ex fuel, of "''O''" "''X''"] obtain k where
    k: "getBestMove fuel ?b ''O'' ''X'' = Some (Some k)" "k < 9" "cell ?b k = Some ''''" and
    best: "\<forall>j<9. cell ?b j = Some '''' \<longrightarrow>
        (\<exists>v w. moveScore fuel ?b ''O'' ''X'' j = Some (Fin v) \<and>
               moveScore fuel ?b ''O'' ''X'' k = Some (Fin w) \<and> v \<le> w \<and> (j < k \<longrightarrow> v < w))"
    by auto
  have sign: "moveScore fuel ?b ''O'' ''X'' j = Some (Fin v) \<Longrightarrow>
      (0 \<le> v \<longleftrightarrow> secure (empties ?b) (?b[j := ''O'']) False ''O'' ''X'')"
    if j: "j < 9" "cell ?b j = Some ''''" for j v
  proof -
    assume sc: "moveScore fuel ?b ''O'' ''X'' j = Some (Fin v)"
    have e: "Suc (empties (?b[j := ''O''])) = empties ?b"
      using j by (intro empties_update_eq) simp_all
    have e9: "empties ?b \<le> 9" by (rule empties_le)
    with e fuel have lt: "empties (?b[j := ''O'']) < fuel" "empties (?b[j := ''O'']) < empties ?b"
      by simp_all
    have "minimax fuel (?b[j := ''O'']) 0 False ''O'' ''X'' =
          minimax (empties ?b) (?b[j := ''O'']) 0 False ''O'' ''X''"
      by (rule minimax_fuel [OF _ _ lt]) simp_all
    with sc have m: "minimax (Suc (empties (?b[j := ''O'']))) (?b[j := ''O'']) 0 False ''O'' ''X''
        = Some (Fin v)" by (simp add: moveScore_def e)
    have d: "0 + int (empties (?b[j := ''O''])) < 10" using e e9 by simp
    have l: "length (?b[j := ''O'']) = 9" using len by simp
    from minimax_sign [OF _ _ refl l d m] show ?thesis by (simp add: e)
  qed
  from secure_children(1) [OF sec nt] obtain j where
    j: "j < 9" "cell ?b j = Some ''''" "secure (empties ?b) (?b[j := ''O'']) False ''O'' ''X''"
    by auto
  from best j(1,2) obtain v w where
    vw: "moveScore fuel ?b ''O'' ''X'' j = Some (Fin v)"
        "moveScore fuel ?b ''O'' ''X'' k = Some (Fin w)" "v \<le> w" by blast
  from sign [OF j(1,2) vw(1)] j(3) have "0 \<le> v" by simp
  with vw(3) have "0 \<le> w" by simp
  with sign [OF k(2,3) vw(2)] have sk: "secure (empties ?b) (?b[k := ''O'']) False ''O'' ''X''"
    by simp
  have "Suc (empties (?b[k := ''O''])) = empties ?b"
    using k(2,3) by (intro empties_update_eq) simp_all
  with sk cur have sec': "secure (Suc (empties (?b[k := ''O''])))
      (?b[k := ''O'']) (currentPlayer s \<noteq> Some Player2) ''O'' ''X''" by simp
  from k(2,3) have free: "getCell (int k) ?b = Some ''''" by (simp add: getCell_def)
  from makeMove_effect [OF go free mk] obtain r where
    r: "success r" "makeMove (int k) s = Returned (r,
     (if checkWinner (?b[k := ''O'']) ''O''
      then s\<lparr>board := ?b[k := ''O''], gameOver := True, winner := currentPlayer s\<rparr>
      else if isFull (?b[k := ''O''])
      then s\<lparr>board := ?b[k := ''O''], gameOver := True\<rparr>
      else switchPlayer (s\<lparr>board := ?b[k := ''O'']\<rparr>)))" (is "_ = Returned (r, ?s')")
    by auto
  have "gameInv ?s'"
    by (rule gameInv_after_move [OF inv go k(2,3) _ sec' refl]) (simp add: cur)
  moreover have "makeComputerMove fuel s = makeMove (int k) s"
    using makeComputerMove_run [OF turn go p1(1), of fuel] k(1) cmk p1(2) by simp
  ultimately show ?thesis using r by auto
qed

lemma computer_step:
  assumes inv: "gameInv s" and fuel: "9 \<le> fuel"
    and mv: "makeComputerMove fuel s = Returned (r, s')"
  shows "gameInv s'"
proof (cases "isComputerTurn s = Some True \<and> \<not> gameOver s")
  case True
  with computer_move [OF inv _ _ fuel] mv show ?thesis by auto
next
  case False
  with gameInv_turn(1) [OF inv] have "\<not> (currentPlayer s = Some Player2) \<or> gameOver s" by auto
  from makeComputerMove_idle [OF gameInv_turn(1) [OF inv] this, of fuel] mv have "s' = s" by simp
  with inv show ?thesis by simp
qed

lemma gameInv_initialize:
  assumes "length (board s0) = 9" and "secure 10 emptyBoard False ''O'' ''X''"
  shows "gameInv (initialize name1 name2 True s0)"
proof -
  have b: "board (initialize name1 name2 True s0) = emptyBoard"
    using assms(1) by (simp add: initialize_def Let_def reset_nine)
  have w: "\<not> checkWinner emptyBoard ''X''" "\<not> checkWinner emptyBoard ''O''" "\<not> isFull emptyBoard"
    "length emptyBoard = 9"
    by (simp_all add: emptyBoard_def win9 isFull_def)
  have s: "secure (Suc (empties emptyBoard)) emptyBoard False ''O'' ''X''"
    using assms(2) by (simp add: empties_emptyBoard)
  show ?thesis
    unfolding gameInv_def b using w s by (simp add: initialize_def Let_def)
qed

text \<open>
  The computer is secure on the empty board with the opponent to move: the search for its
  replies, run for any two different markers other than the empty string.
\<close>

lemma secure9:
  "secure (Suc n) [a0, a1, a2, a3, a4, a5, a6, a7, a8] m cm pm =
   (if checkWinner [a0, a1, a2, a3, a4, a5, a6, a7, a8] cm then True
    else if checkWinner [a0, a1, a2, a3, a4, a5, a6, a7, a8] pm then False
    else if isBoardFull [a0, a1, a2, a3, a4, a5, a6, a7, a8] then True
    else if m then
      (if (if a4 = [] then secure n [a0, a1, a2, a3, cm, a5, a6, a7, a8] False cm pm else False)
       then True
       else if (if a0 = [] then secure n [cm, a1, a2, a3, a4, a5, a6, a7, a8] False cm pm else False)
       then True
       else if (if a2 = [] then secure n [a0, a1, cm, a3, a4, a5, a6, a7, a8] False cm pm else False)
       then True
       else if (if a6 = [] then secure n [a0, a1, a2, a3, a4, a5, cm, a7, a8] False cm pm else False)
       then True
       else if (if a8 = [] then secure n [a0, a1, a2, a3, a4, a5, a6, a7, cm] False cm pm else False)
       then True
       else if (if a1 = [] then secure n [a0, cm, a2, a3, a4, a5, a6, a7, a8] False cm pm else False)
       then True
       else if (if a3 = [] then secure n [a0, a1, a2, cm, a4, a5, a6, a7, a8] False cm pm else False)
       then True
       else if (if a5 = [] then secure n [a0, a1, a2, a3, a4, cm, a6, a7, a8] False cm pm else False)
       then True
       else (if a7 = [] then secure n [a0, a1, a2, a3, a4, a5, a6, cm, a8] False cm pm else False))
    else
      (if (if a4 = [] then secure n [a0, a1, a2, a3, pm, a5, a6, a7, a8] True cm pm else True)
       then
       (if (if a0 = [] then secure n [pm, a1, a2, a3, a4, a5, a6, a7, a8] True cm pm else True)
       then
       (if (if a2 = [] then secure n [a0, a1, pm, a3, a4, a5, a6, a7, a8] True cm pm else True)
       then
       (if (if a6 = [] then secure n [a0, a1, a2, a3, a4, a5, pm, a7, a8] True cm pm else True)
       then
       (if (if a8 = [] then secure n [a0, a1, a2, a3, a4, a5, a6, a7, pm] True cm pm else True)
       then
       (if (if a1 = [] then secure n [a0, pm, a2, a3, a4, a5, a6, a7, a8] True cm pm else True)
       then
       (if (if a3 = [] then secure n [a0, a1, a2, pm, a4, a5, a6, a7, a8] True cm pm else True)
       then
       (if (if a5 = [] then secure n [a0, a1, a2, a3, a4, pm, a6, a7, a8] True cm pm else True)
       then
       (if a7 = [] then secure n [a0, a1, a2, a3, a4, a5, a6, pm, a8] True cm pm else True)
       else False) else False) else False) else False) else False) else False) else False)
       else False))"
proof -
  have ifs: "\<And>P R. (if P then True else R) = (P \<or> R)"
    "\<And>P R. (if P then R else False) = (P \<and> R)"
    "\<And>P R. (if P then R else True) = (P \<longrightarrow> R)"
    "\<And>P R. (if P then False else R) = (\<not> P \<and> R)"
    by simp_all
  show ?thesis
    by (simp only: secure.simps(2) scanOrder_def list_ex_Cons_iff list_ex_Nil_iff
        list.pred_inject One_nat_def cell9 upd9 option.inject ifs simp_thms
        cong del: if_weak_cong)
qed

lemma ten: "(10::nat) = Suc (Suc (Suc (Suc (Suc (Suc (Suc (Suc (Suc (Suc 0)))))))))"
  by simp

lemma secure_start_any:
  assumes "x \<noteq> []" "c \<noteq> []" "x \<noteq> c"
  shows "secure 10 [[], [], [], [], [], [], [], [], []] False c x"
proof -
  have neq: "(x = []) = False" "(c = []) = False" "(x = c) = False"
     "([] = x) = False" "([] = c) = False" "(c = x) = False"
    using assms by auto
  show ?thesis
    unfolding ten
    by (simp add: secure9 win9 full9 neq split del: if_split)
qed

lemma secure_start: "secure 10 emptyBoard False ''O'' ''X''"
  using secure_start_any [of "''X''" "''O''"] by (simp add: emptyBoard_def)

lemma played_gameInv: "played s \<Longrightarrow> gameInv s"
proof (induction rule: played.induct)
  case (start s0 name1 name2)
  then show ?case using secure_start by (rule gameInv_initialize)
next
  case (human s index r s')
  then show ?case by (blast intro: human_step)
next
  case (computer s fuel r s')
  then show ?case by (blast intro: computer_step)
qed

text \<open>
  C1. In every state of a game against the computer that starts on the empty board, with
  the opponent (player 1, marker \<open>X\<close>) moving first and making any moves, and the computer
  (player 2, marker \<open>O\<close>) choosing each of its moves with the minimax \<open>getBestMove\<close>: player 1
  is never the winner and \<open>X\<close> never holds a line; a finished game is a win for the computer,
  with a line of \<open>O\<close> on the board, or a draw on a full board. Whenever it is the computer's
  turn the selector returns within fuel for nine nested calls and its move is accepted.
\<close>

theorem minimax_never_loses:
  assumes "played s"
  shows "winner s \<noteq> Some Player1 \<and> \<not> checkWinner (board s) ''X'' \<and>
    map_option marker (player1 s) = Some ''X'' \<and> map_option marker (player2 s) = Some ''O'' \<and>
    (gameOver s \<longrightarrow>
       (winner s = Some Player2 \<and> checkWinner (board s) ''O'') \<or>
       (winner s = None \<and> isFull (board s))) \<and>
    (\<not> gameOver s \<and> isComputerTurn s = Some True \<longrightarrow>
       (\<exists>r s'. makeComputerMove 9 s = Returned (r, s') \<and> success r \<and> played s'))"
proof -
  from assms have inv: "gameInv s" by (rule played_gameInv)
  have prog: "\<exists>r s'. makeComputerMove 9 s = Returned (r, s') \<and> success r \<and> played s'"
    if "\<not> gameOver s" "isComputerTurn s = Some True"
  proof -
    from computer_move [OF inv that, of 9] obtain r s' where
      m: "makeComputerMove 9 s = Returned (r, s')" "success r" by auto
    from played.computer [OF assms _ m(1)] have "played s'" by simp
    with m show ?thesis by blast
  qed
  from inv have "winner s \<noteq> Some Player1" "\<not> checkWinner (board s) ''X''"
    "map_option marker (player1 s) = Some ''X''" "map_option marker (player2 s) = Some ''O''"
    "gameOver s \<longrightarrow>
       (winner s = Some Player2 \<and> checkWinner (board s) ''O'') \<or>
       (winner s = None \<and> isFull (board s))"
    by (auto simp: gameInv_def)
  with prog show ?thesis by blast
qed

theorem minimax_never_loses_witness:
  "played \<lparr>board = [''X'', '''', '''', '''', '''', '''', '''', '''', ''''],
           player1 = Some \<lparr>name = ''Ann'', marker = ''X''\<rparr>,
           player2 = Some \<lparr>name = ''Computer'', marker = ''O''\<rparr>,
           currentPlayer = Some Player2, gameOver = False, winner = None,
           vsComputer = True, computerMarker = ''O''\<rparr> \<and>
   (\<exists>r s'. makeComputerMove 9
       \<lparr>board = [''X'', '''', '''', '''', '''', '''', '''', '''', ''''],
        player1 = Some \<lparr>name = ''Ann'', marker = ''X''\<rparr>,
        player2 = Some \<lparr>name = ''Computer'', marker = ''O''\<rparr>,
        currentPlayer = Some Player2, gameOver = False, winner = None,
        vsComputer = True, computerMarker = ''O''\<rparr> = Returned (r, s') \<and> success r \<and> played s')"
proof -
  let ?s0 = "initialize ''Ann'' '''' True initialGame"
  let ?s1 = "\<lparr>board = [''X'', '''', '''', '''', '''', '''', '''', '''', ''''],
           player1 = Some \<lparr>name = ''Ann'', marker = ''X''\<rparr>,
           player2 = Some \<lparr>name = ''Computer'', marker = ''O''\<rparr>,
           currentPlayer = Some Player2, gameOver = False, winner = None,
           vsComputer = True, computerMarker = ''O''\<rparr>"
  have p0: "played ?s0" by (rule played.start) (simp add: initialGame_def emptyBoard_def)
  have t0: "isComputerTurn ?s0 = Some False"
    by (simp add: isComputerTurn_def currentMarker_def deref_def initialize_def Let_def)
  have m0: "makeMove 0 ?s0 =
    Returned (\<lparr>success = True, message = None, resultGameOver = Some False,
               resultWinner = None\<rparr>, ?s1)"
    by (simp add: initialize_def initialGame_def Let_def makeMove_def getCell_def cell_def
        setCell_def reset_def assign_def emptyBoard_def upt_rec currentMarker_def deref_def
        controllerCheckWinner_def checkWinner_def winConditions_def isFull_def
        switchPlayer_def ref1_def ref2_def)
  have p1: "played ?s1" using p0 t0 m0 by (rule played.human)
  have t1: "isComputerTurn ?s1 = Some True"
    by (simp add: isComputerTurn_def currentMarker_def deref_def)
  from minimax_never_loses [OF p1] p1 t1 show ?thesis by simp
qed

end
